theory Spec2Isabelle
  imports Complex_Main "HOL-Library.Word" "HOL-Library.Multiset"
begin

section \<open>JavaScript strings and buffers\<close>

text \<open>
  A JavaScript string is a sequence of UTF-16 code units; a code unit is modelled as a
  natural number. A \<open>Buffer\<close> is a sequence of bytes. String literals of the source are
  written through \<open>js\<close>.
\<close>

type_synonym jsstring = "nat list"

type_synonym buffer = "8 word list"

definition js :: "string \<Rightarrow> jsstring" where
  "js s = map of_char s"

definition nl :: nat where
  "nl = 10"

definition tab :: nat where
  "tab = 9"

subsection \<open>\<open>Buffer.prototype.toString()\<close>: UTF-8 decoding\<close>

text \<open>
  \<open>chunk.toString()\<close> decodes the bytes of the chunk as UTF-8. Every ill-formed
  subsequence (a stray continuation byte, an overlong or surrogate encoding, a sequence cut
  off by the end of the buffer) is replaced by U+FFFD, one per maximal ill-formed subpart.
  \<open>utf8_dec cp need lo hi bs\<close> is the decoder in the state where \<open>need\<close> continuation
  bytes are still expected, \<open>cp\<close> holds the bits read so far and the next byte must lie in
  \<open>[lo, hi]\<close>. Its result is a list of code points.
\<close>

function utf8_dec :: "nat \<Rightarrow> nat \<Rightarrow> nat \<Rightarrow> nat \<Rightarrow> nat list \<Rightarrow> nat list" where
  "utf8_dec cp need lo hi [] = (if need = 0 then [] else [0xFFFD])"
| "utf8_dec cp need lo hi (b # bs) =
     (if need = 0 then
        (if b \<le> 0x7F then b # utf8_dec 0 0 0x80 0xBF bs
         else if 0xC2 \<le> b \<and> b \<le> 0xDF then utf8_dec (b mod 32) 1 0x80 0xBF bs
         else if 0xE0 \<le> b \<and> b \<le> 0xEF then
           utf8_dec (b mod 16) 2 (if b = 0xE0 then 0xA0 else 0x80)
             (if b = 0xED then 0x9F else 0xBF) bs
         else if 0xF0 \<le> b \<and> b \<le> 0xF4 then
           utf8_dec (b mod 8) 3 (if b = 0xF0 then 0x90 else 0x80)
             (if b = 0xF4 then 0x8F else 0xBF) bs
         else 0xFFFD # utf8_dec 0 0 0x80 0xBF bs)
      else if b < lo \<or> hi < b then 0xFFFD # utf8_dec 0 0 0x80 0xBF (b # bs)
      else if need = 1 then (cp * 64 + b mod 64) # utf8_dec 0 0 0x80 0xBF bs
      else utf8_dec (cp * 64 + b mod 64) (need - 1) 0x80 0xBF bs)"
  by pat_completeness auto
termination
  by (relation "measure (\<lambda>(cp, need, lo, hi, bs). 2 * length bs + (if need = 0 then 0 else 1))")
     auto

text \<open>A code point above the basic plane becomes a surrogate pair of code units.\<close>

definition utf16_encode :: "nat \<Rightarrow> jsstring" where
  "utf16_encode c =
     (if c < 0x10000 then [c]
      else [0xD800 + (c - 0x10000) div 1024, 0xDC00 + (c - 0x10000) mod 1024])"

definition toString :: "buffer \<Rightarrow> jsstring" where
  "toString chunk = concat (map utf16_encode (utf8_dec 0 0 0x80 0xBF (map unat chunk)))"

subsection \<open>\<open>String.prototype.split\<close> with a one-character separator\<close>

text \<open>
  \<open>s.split(sep)\<close> never returns an empty array: the empty string splits into one empty
  field, and a string with \<open>n\<close> separators into \<open>n + 1\<close> fields.
\<close>

fun split :: "nat \<Rightarrow> jsstring \<Rightarrow> jsstring list" where
  "split sep [] = [[]]"
| "split sep (c # cs) =
     (if c = sep then [] # split sep cs
      else (case split sep cs of [] \<Rightarrow> [[c]] | l # ls \<Rightarrow> (c # l) # ls))"

subsection \<open>\<open>String.prototype.trim\<close>\<close>

text \<open>The code units that \<open>trim\<close> removes: ECMAScript white space and line terminators.\<close>

definition is_ws :: "nat \<Rightarrow> bool" where
  "is_ws c \<longleftrightarrow>
     c = 0x09 \<or> c = 0x0A \<or> c = 0x0B \<or> c = 0x0C \<or> c = 0x0D \<or> c = 0x20 \<or> c = 0xA0
     \<or> c = 0x1680 \<or> (0x2000 \<le> c \<and> c \<le> 0x200A) \<or> c = 0x2028 \<or> c = 0x2029
     \<or> c = 0x202F \<or> c = 0x205F \<or> c = 0x3000 \<or> c = 0xFEFF"

definition trim :: "jsstring \<Rightarrow> jsstring" where
  "trim s = rev (dropWhile is_ws (rev (dropWhile is_ws s)))"

subsection \<open>\<open>Array.prototype.join\<close>\<close>

fun join :: "jsstring \<Rightarrow> jsstring list \<Rightarrow> jsstring" where
  "join sep [] = []"
| "join sep [x] = x"
| "join sep (x # y # ys) = x @ sep @ join sep (y # ys)"

section \<open>Objects and \<open>JSON.stringify\<close>\<close>

text \<open>
  An object with string keys is an association list in property order; a property whose
  value is \<open>undefined\<close> carries \<open>None\<close>. \<open>set_prop\<close> assigns a property: an existing
  key keeps its position, a new key goes last (none of the keys used here is an array
  index, so no key is reordered).
\<close>

type_synonym jsobject = "(jsstring \<times> jsstring option) list"

fun set_prop :: "jsobject \<Rightarrow> jsstring \<Rightarrow> jsstring option \<Rightarrow> jsobject" where
  "set_prop [] k v = [(k, v)]"
| "set_prop (p # ps) k v = (if fst p = k then (k, v) # ps else p # set_prop ps k v)"

definition fromEntries :: "(jsstring \<times> jsstring option) list \<Rightarrow> jsobject" where
  "fromEntries entries = foldl (\<lambda>obj (k, v). set_prop obj k v) [] entries"

definition hexdigit :: "nat \<Rightarrow> nat" where
  "hexdigit d = (if d < 10 then 48 + d else 87 + d)"

definition unicode_escape :: "nat \<Rightarrow> jsstring" where
  "unicode_escape c =
     [92, 117, hexdigit (c div 4096 mod 16), hexdigit (c div 256 mod 16),
      hexdigit (c div 16 mod 16), hexdigit (c mod 16)]"

definition is_lead :: "nat \<Rightarrow> bool" where
  "is_lead c \<longleftrightarrow> 0xD800 \<le> c \<and> c \<le> 0xDBFF"

definition is_trail :: "nat \<Rightarrow> bool" where
  "is_trail c \<longleftrightarrow> 0xDC00 \<le> c \<and> c \<le> 0xDFFF"

text \<open>
  One code unit of a quoted JSON string: the short escapes, \<open>\uXXXX\<close> for the other
  control characters and for a surrogate that is not part of a pair, and the code unit
  itself otherwise.
\<close>

definition quote_unit :: "nat \<Rightarrow> jsstring" where
  "quote_unit c =
     (if c = 0x08 then [92, 98]
      else if c = 0x09 then [92, 116]
      else if c = 0x0A then [92, 110]
      else if c = 0x0C then [92, 102]
      else if c = 0x0D then [92, 114]
      else if c = 0x22 then [92, 34]
      else if c = 0x5C then [92, 92]
      else if c < 0x20 \<or> is_lead c \<or> is_trail c then unicode_escape c
      else [c])"

fun quote_units :: "jsstring \<Rightarrow> jsstring" where
  "quote_units [] = []"
| "quote_units [c] = quote_unit c"
| "quote_units (c # d # cs) =
     (if is_lead c \<and> is_trail d then c # d # quote_units cs
      else quote_unit c @ quote_units (d # cs))"

definition quoteJSONString :: "jsstring \<Rightarrow> jsstring" where
  "quoteJSONString s = [34] @ quote_units s @ [34]"

text \<open>
  \<open>JSON.stringify\<close> of an object whose property values are strings or \<open>undefined\<close>:
  properties in order, a property with the value \<open>undefined\<close> left out.
\<close>

definition stringify_prop :: "jsstring \<times> jsstring option \<Rightarrow> jsstring list" where
  "stringify_prop p =
     (case snd p of
        None \<Rightarrow> []
      | Some v \<Rightarrow> [quoteJSONString (fst p) @ [58] @ quoteJSONString v])"

definition JSON_stringify :: "jsobject \<Rightarrow> jsstring" where
  "JSON_stringify obj = [123] @ join [44] (concat (map stringify_prop obj)) @ [125]"

section \<open>The TSV-to-JSON transform\<close>

text \<open>
  The effects of the transform, in the order in which they happen: a line pushed to the
  readable side, or a warning printed with \<open>console.error\<close> (the colouring left out).
\<close>

datatype event = Push jsstring | Warn jsstring

record TSVTransform =
  remainder :: jsstring

definition columns :: "jsstring list" where
  "columns =
     [js ''title'', js ''description'', js ''city'', js ''previewImage'', js ''photos'',
      js ''isPremium'', js ''rating'', js ''type'', js ''rooms'', js ''guests'', js ''price'',
      js ''features'', js ''authorName'', js ''authorEmail'', js ''authorAvatar'',
      js ''authorIsPro'', js ''latitude'', js ''longitude'']"

definition constructor :: TSVTransform where
  "constructor = \<lparr>remainder = []\<rparr>"

text \<open>\<open>values[index]\<close>: \<open>undefined\<close> out of range.\<close>

definition index_opt :: "'a list \<Rightarrow> nat \<Rightarrow> 'a option" where
  "index_opt xs i = (if i < length xs then Some (xs ! i) else None)"

text \<open>
  \<open>Object.fromEntries(this.columns.map((key, index) => [key, values[index]]))\<close>,
  serialised and terminated by a newline.
\<close>

definition offer_object :: "jsstring list \<Rightarrow> jsobject" where
  "offer_object values =
     fromEntries (map (\<lambda>index. (columns ! index, index_opt values index)) [0..<length columns])"

definition offer_json :: "jsstring list \<Rightarrow> jsstring" where
  "offer_json values = JSON_stringify (offer_object values) @ [nl]"

text \<open>
  The body of the loop of \<open>_transform\<close> for one line. \<open>Object.fromEntries\<close> and
  \<open>JSON.stringify\<close> do not throw on an object of strings, so the \<open>catch\<close> branch has no
  counterpart.
\<close>

definition transform_line :: "jsstring \<Rightarrow> event list" where
  "transform_line line =
     (if trim line = [] then []
      else (let values = split tab line in
        if length values \<noteq> length columns
        then [Warn (js ''Warning: Skipping invalid line: '' @ line)]
        else [Push (offer_json values)]))"

text \<open>
  \<open>_transform\<close>: the new state and the events of this chunk. \<open>lines.pop() || ''\<close> is
  the last element of the split, which is never empty. The callback is called without an
  error on every path.
\<close>

definition transform :: "TSVTransform \<Rightarrow> buffer \<Rightarrow> TSVTransform \<times> event list" where
  "transform this chunk =
     (let lines = split nl (remainder this @ toString chunk);
          popped = (if lines = [] then None else Some (last lines));
          lines' = butlast lines
      in (this\<lparr>remainder := (case popped of None \<Rightarrow> [] | Some l \<Rightarrow> if l = [] then [] else l)\<rparr>,
          concat (map transform_line lines')))"

text \<open>\<open>_flush\<close>: the events at the end of the input. The state is left as it is.\<close>

definition flush :: "TSVTransform \<Rightarrow> event list" where
  "flush this =
     (if remainder this \<noteq> [] then
        (let values = split tab (remainder this) in
         if length values = length columns then [Push (offer_json values)] else [])
      else [])"

text \<open>
  A whole stream: the chunks in order through \<open>_transform\<close>, then \<open>_flush\<close>.
\<close>

fun feed :: "TSVTransform \<Rightarrow> buffer list \<Rightarrow> TSVTransform \<times> event list" where
  "feed this [] = (this, [])"
| "feed this (chunk # chunks) =
     (let (this', evs) = transform this chunk;
          (this'', evs') = feed this' chunks
      in (this'', evs @ evs'))"

definition run :: "buffer list \<Rightarrow> event list" where
  "run chunks = (let (this, evs) = feed constructor chunks in evs @ flush this)"

fun pushed :: "event list \<Rightarrow> jsstring list" where
  "pushed [] = []"
| "pushed (Push s # evs) = s # pushed evs"
| "pushed (Warn s # evs) = pushed evs"


text \<open>The text of a file of complete lines: every line followed by a newline.\<close>

definition unlines :: "jsstring list \<Rightarrow> jsstring" where
  "unlines ls = concat (map (\<lambda>l. l @ [nl]) ls)"

section \<open>The offer generator\<close>

datatype error = TypeError | RequestError | ReadError

record user =
  name :: jsstring
  email :: jsstring
  avatarUrl :: jsstring
  type :: jsstring

record location =
  latitude :: real
  longitude :: real

record center = location +
  radius :: real

text \<open>
  \<open>MockServerData\<close>. The \<open>coordinates\<close> object is a map from its keys to its values;
  a key that it does not have reads as \<open>undefined\<close>. A number is the real number that
  the double stands for.
\<close>

record MockServerData =
  titles :: "jsstring list"
  descriptions :: "jsstring list"
  cities :: "jsstring list"
  previewImages :: "jsstring list"
  propertyTypes :: "jsstring list"
  features :: "jsstring list"
  users :: "user list"
  coordinates :: "jsstring \<rightharpoonup> center"

text \<open>
  Each call of \<open>Math.random()\<close> in one iteration of the generator has its own draw, a
  number in \<open>[0, 1)\<close>. The two shuffles \<open>[...items].sort(() => 0.5 - Math.random())\<close>
  take their draws inside the engine's sort; what they return is some rearrangement of the
  items, given here by a function.
\<close>

record draws =
  u_city :: real
  u_angle :: real
  u_radius :: real
  u_photosCount :: real
  shuffle_photos :: "jsstring list \<Rightarrow> jsstring list"
  u_user :: real
  u_title :: real
  u_description :: real
  u_previewImage :: real
  u_isPremium :: real
  u_rating :: real
  u_type :: real
  u_rooms :: real
  u_guests :: real
  u_price :: real
  u_featuresCount :: real
  shuffle_features :: "jsstring list \<Rightarrow> jsstring list"

subsection \<open>Arithmetic on doubles\<close>

text \<open>
  The sum and the product of two numbers are the exact result rounded to the nearest
  double, to the one with the even significand when two are equally near. \<open>rd\<close> is this
  rounding: \<open>binade x\<close> is the exponent \<open>e\<close> with \<open>2^e \<le> |x| < 2^(e+1)\<close>, the
  doubles of that binade are the multiples of \<open>2^(e-52)\<close>, and below \<open>2^-1022\<close> the
  doubles are the multiples of \<open>2^-1074\<close>. The exponent has no upper bound here: a
  result of \<open>2^1024\<close> or more, which is \<open>Infinity\<close> in the language, stays a number. A
  number is a double when rounding leaves it as it is.
\<close>

definition pow2 :: "int \<Rightarrow> real" where
  "pow2 e = (if 0 \<le> e then 2 ^ nat e else 1 / 2 ^ nat (- e))"

definition binade :: "real \<Rightarrow> int" where
  "binade x = \<lfloor>log 2 \<bar>x\<bar>\<rfloor>"

definition expo :: "real \<Rightarrow> int" where
  "expo x = max (binade x) (- 1022)"

definition round_even :: "real \<Rightarrow> int" where
  "round_even q =
     (let f = \<lfloor>q\<rfloor>; r = q - of_int f
      in if r < 1 / 2 then f else if 1 / 2 < r then f + 1 else if even f then f else f + 1)"

definition rd :: "real \<Rightarrow> real" where
  "rd x =
     (if x = 0 then 0
      else (let ulp = pow2 (expo x - 52) in ulp * of_int (round_even (x / ulp))))"

definition is_double :: "real \<Rightarrow> bool" where
  "is_double x \<longleftrightarrow> rd x = x"

text \<open>
  \<open>Math.floor(Math.random() * (max - min + 1) + min)\<close>, every operation rounded.
\<close>

definition generateRandomNumber :: "real \<Rightarrow> real \<Rightarrow> real \<Rightarrow> int" where
  "generateRandomNumber mn mx u = \<lfloor>rd (rd (u * rd (rd (mx - mn) + 1)) + mn)\<rfloor>"

text \<open>
  \<open>items[Math.floor(Math.random() * items.length)]\<close>: \<open>undefined\<close> out of range. The
  product is taken exactly here.
\<close>

definition getRandomItem :: "'a list \<Rightarrow> real \<Rightarrow> 'a option" where
  "getRandomItem items u =
     (let i = \<lfloor>u * real (length items)\<rfloor>
      in if 0 \<le> i \<and> i < int (length items) then Some (items ! nat i) else None)"

text \<open>\<open>shuffled.slice(0, count)\<close>; a negative \<open>count\<close> counts from the end.\<close>

definition slice0 :: "'a list \<Rightarrow> int \<Rightarrow> 'a list" where
  "slice0 xs cnt =
     (if cnt < 0 then take (nat (int (length xs) + cnt)) xs else take (nat cnt) xs)"

definition getRandomItems :: "'a list \<Rightarrow> int \<Rightarrow> ('a list \<Rightarrow> 'a list) \<Rightarrow> 'a list" where
  "getRandomItems items cnt shuffle = (let shuffled = shuffle items in slice0 shuffled cnt)"

text \<open>
  \<open>Math.PI\<close> is the double nearest to \<open>pi\<close>. The results of \<open>Math.sqrt\<close>, \<open>Math.cos\<close> and
  \<open>Math.sin\<close> are approximations that the language leaves to the engine; they are taken
  here as the exact results rounded to the nearest double.
\<close>

definition Math_PI :: real where
  "Math_PI = rd pi"

definition Math_sqrt :: "real \<Rightarrow> real" where
  "Math_sqrt x = rd (sqrt x)"

definition Math_cos :: "real \<Rightarrow> real" where
  "Math_cos x = rd (cos x)"

definition Math_sin :: "real \<Rightarrow> real" where
  "Math_sin x = rd (sin x)"

text \<open>
  Reading \<open>center.radius\<close> of \<open>undefined\<close> throws a \<open>TypeError\<close>. Every quotient, product
  and sum is rounded.
\<close>

definition generateRandomLocation :: "center option \<Rightarrow> real \<Rightarrow> real \<Rightarrow> error + location" where
  "generateRandomLocation center ua ur =
     (case center of
        None \<Rightarrow> Inl TypeError
      | Some c \<Rightarrow>
         (let radiusInDeg = rd (radius c / 111);
              randomAngle = rd (rd (ua * 2) * Math_PI);
              randomRadius = rd (Math_sqrt ur * radiusInDeg)
          in Inr \<lparr>latitude = rd (latitude c + rd (randomRadius * Math_cos randomAngle)),
                  longitude = rd (longitude c + rd (randomRadius * Math_sin randomAngle))\<rparr>))"

subsection \<open>Numbers as text\<close>

fun digits :: "nat \<Rightarrow> jsstring" where
  "digits n = (if n < 10 then [48 + n] else digits (n div 10) @ [48 + n mod 10])"

declare digits.simps [simp del]

primrec fixed_digits :: "nat \<Rightarrow> nat \<Rightarrow> jsstring" where
  "fixed_digits 0 m = []"
| "fixed_digits (Suc k) m = fixed_digits k (m div 10) @ [48 + m mod 10]"

text \<open>
  \<open>x.toFixed(f)\<close>: the sign, then the integer \<open>n\<close> nearest to \<open>|x| * 10^f\<close> (the larger
  one of two) written with a point before its last \<open>f\<close> digits. From \<open>10^21\<close> on the
  result is the number's ordinary text instead, which is in exponent notation there; that
  text is the parameter \<open>n2s\<close>.
\<close>

definition toFixed :: "(real \<Rightarrow> jsstring) \<Rightarrow> nat \<Rightarrow> real \<Rightarrow> jsstring" where
  "toFixed n2s f x =
     (let s = (if x < 0 then [45] else []);
          a = \<bar>x\<bar>
      in if 10 ^ 21 \<le> a then s @ n2s a
         else (let n = nat \<lfloor>a * 10 ^ f + 1 / 2\<rfloor>
               in s @ digits (n div 10 ^ f)
                    @ (if f = 0 then [] else [46] @ fixed_digits f (n mod 10 ^ f))))"

text \<open>The text of an integral number, as \<open>join\<close> writes it.\<close>

definition int_text :: "(real \<Rightarrow> jsstring) \<Rightarrow> int \<Rightarrow> jsstring" where
  "int_text n2s i =
     (if 10 ^ 21 \<le> \<bar>i\<bar> then (if i < 0 then [45] else []) @ n2s (real_of_int \<bar>i\<bar>)
      else (if i < 0 then [45] else []) @ digits (nat \<bar>i\<bar>))"

definition bool_text :: "bool \<Rightarrow> jsstring" where
  "bool_text b = (if b then js ''true'' else js ''false'')"

text \<open>An element that is \<open>undefined\<close> is joined as the empty string.\<close>

definition opt_text :: "jsstring option \<Rightarrow> jsstring" where
  "opt_text v = (case v of None \<Rightarrow> [] | Some s \<Rightarrow> s)"

subsection \<open>One iteration of \<open>generateOffers\<close>\<close>

record offer =
  title :: "jsstring option"
  description :: "jsstring option"
  city :: "jsstring option"
  previewImage :: "jsstring option"
  photos :: jsstring
  isPremium :: bool
  rating :: jsstring
  offer_type :: "jsstring option"
  rooms :: int
  guests :: int
  price :: int
  offer_features :: jsstring
  authorName :: jsstring
  authorEmail :: jsstring
  authorAvatar :: jsstring
  authorIsPro :: bool
  offer_latitude :: jsstring
  offer_longitude :: jsstring

text \<open>The arrays \<open>photos\<close> and the argument of the second \<open>join\<close>.\<close>

definition photos_list :: "MockServerData \<Rightarrow> draws \<Rightarrow> jsstring list" where
  "photos_list mockData d =
     (let photosCount = generateRandomNumber 3 6 (u_photosCount d)
      in getRandomItems (previewImages mockData) photosCount (shuffle_photos d))"

definition features_list :: "MockServerData \<Rightarrow> draws \<Rightarrow> jsstring list" where
  "features_list mockData d =
     getRandomItems (features mockData) (generateRandomNumber 2 6 (u_featuresCount d))
       (shuffle_features d)"

text \<open>
  The object \<open>offer\<close>. An undefined \<open>city\<close> reads the property \<open>"undefined"\<close> of
  \<open>coordinates\<close>; \<open>user.name\<close> of an undefined user throws a \<open>TypeError\<close>.
\<close>

definition generate_offer ::
    "(real \<Rightarrow> jsstring) \<Rightarrow> MockServerData \<Rightarrow> draws \<Rightarrow> error + offer" where
  "generate_offer n2s mockData d =
     (let city = getRandomItem (cities mockData) (u_city d);
          cityCoords = coordinates mockData (case city of None \<Rightarrow> js ''undefined'' | Some c \<Rightarrow> c)
      in case generateRandomLocation cityCoords (u_angle d) (u_radius d) of
           Inl e \<Rightarrow> Inl e
         | Inr location \<Rightarrow>
            (let photos = photos_list mockData d;
                 user = getRandomItem (users mockData) (u_user d)
             in case user of
                  None \<Rightarrow> Inl TypeError
                | Some user \<Rightarrow> Inr
                   \<lparr>title = getRandomItem (titles mockData) (u_title d),
                    description = getRandomItem (descriptions mockData) (u_description d),
                    city = city,
                    previewImage = getRandomItem (previewImages mockData) (u_previewImage d),
                    photos = join [59] photos,
                    isPremium = (u_isPremium d < 0.2),
                    rating = toFixed n2s 1 (rd (rd (u_rating d * 2) + 3)),
                    offer_type = getRandomItem (propertyTypes mockData) (u_type d),
                    rooms = generateRandomNumber 1 5 (u_rooms d),
                    guests = generateRandomNumber 1 10 (u_guests d),
                    price = generateRandomNumber 50 1000 (u_price d),
                    offer_features = join [59] (features_list mockData d),
                    authorName = name user,
                    authorEmail = email user,
                    authorAvatar = avatarUrl user,
                    authorIsPro = (type user = js ''pro''),
                    offer_latitude = toFixed n2s 6 (latitude location),
                    offer_longitude = toFixed n2s 6 (longitude location)\<rparr>))"

text \<open>The array \<open>row\<close>, every element as \<open>join\<close> writes it, and the yielded line.\<close>

definition row :: "(real \<Rightarrow> jsstring) \<Rightarrow> offer \<Rightarrow> jsstring list" where
  "row n2s offer =
     [opt_text (title offer), opt_text (description offer), opt_text (city offer),
      opt_text (previewImage offer), photos offer, bool_text (isPremium offer), rating offer,
      opt_text (offer_type offer), int_text n2s (rooms offer), int_text n2s (guests offer),
      int_text n2s (price offer), offer_features offer, authorName offer, authorEmail offer,
      authorAvatar offer, bool_text (authorIsPro offer), offer_latitude offer,
      offer_longitude offer]"

definition offer_line ::
    "(real \<Rightarrow> jsstring) \<Rightarrow> MockServerData \<Rightarrow> draws \<Rightarrow> error + jsstring" where
  "offer_line n2s mockData d =
     (case generate_offer n2s mockData d of
        Inl e \<Rightarrow> Inl e
      | Inr offer \<Rightarrow> Inr (join [tab] (row n2s offer) @ [nl]))"

subsection \<open>The generator as a pull-driven sequence\<close>

text \<open>
  The state of the generator is the loop counter \<open>i\<close>; \<open>rnd i\<close> are the draws of iteration
  \<open>i\<close>. One pull runs the loop body once: the sequence is over, or it yields a line and
  moves to \<open>i + 1\<close>, or the body throws.
\<close>

datatype pull = Done | Yield jsstring nat | Throw error

definition generateOffers ::
    "(real \<Rightarrow> jsstring) \<Rightarrow> MockServerData \<Rightarrow> int \<Rightarrow> (nat \<Rightarrow> draws) \<Rightarrow> nat \<Rightarrow> pull" where
  "generateOffers n2s mockData cnt rnd i =
     (if int i < cnt then
        (case offer_line n2s mockData (rnd i) of
           Inl e \<Rightarrow> Throw e
         | Inr line \<Rightarrow> Yield line (i + 1))
      else Done)"

text \<open>
  The loop \<open>for await (const offerLine of generateOffers(mockData, count))\<close> of
  \<open>handleGenerateCommand\<close>, from the generator state \<open>i\<close>: the lines written, in order,
  and the error if a pull threw. Every write is taken to succeed.
\<close>

function write_lines ::
    "(real \<Rightarrow> jsstring) \<Rightarrow> MockServerData \<Rightarrow> int \<Rightarrow> (nat \<Rightarrow> draws) \<Rightarrow> nat
     \<Rightarrow> jsstring list \<times> error option" where
  "write_lines n2s mockData cnt rnd i =
     (case generateOffers n2s mockData cnt rnd i of
        Done \<Rightarrow> ([], None)
      | Throw e \<Rightarrow> ([], Some e)
      | Yield offerLine i' \<Rightarrow>
          (let (written, err) = write_lines n2s mockData cnt rnd i'
           in (offerLine # written, err)))"
  by pat_completeness auto
termination
  by (relation "measure (\<lambda>(n2s, mockData, cnt, rnd, i). nat cnt - i)")
     (auto simp add: generateOffers_def split: if_splits sum.splits)

declare write_lines.simps [simp del]

section \<open>The generate command\<close>

definition resources :: "jsstring list" where
  "resources =
     [js ''titles'', js ''descriptions'', js ''cities'', js ''previewImages'',
      js ''propertyTypes'', js ''features'', js ''users'', js ''coordinates'']"

text \<open>The addresses \<open>`${url}/titles`\<close>, ... in the order of the array.\<close>

definition request_urls :: "jsstring \<Rightarrow> jsstring list" where
  "request_urls url = map (\<lambda>resource. url @ [47] @ resource) resources"

text \<open>
  \<open>Promise.all\<close> over promises that have settled: the values in the order of the array
  if every promise is fulfilled, and the rejection of one of them otherwise. Which rejection
  it is depends on the timing at run time; here it is the first one in the array.
\<close>

fun Promise_all :: "(error + 'a) list \<Rightarrow> error + 'a list" where
  "Promise_all [] = Inr []"
| "Promise_all (p # ps) =
     (case p of
        Inl e \<Rightarrow> Inl e
      | Inr v \<Rightarrow> (case Promise_all ps of Inl e \<Rightarrow> Inl e | Inr vs \<Rightarrow> Inr (v # vs)))"

text \<open>
  What \<open>handleGenerateCommand\<close> does: the addresses requested, the file opened for
  writing if any, the lines written to it, and the error rethrown if any.
\<close>

record generate_outcome =
  requested :: "jsstring list"
  file_opened :: "jsstring option"
  written :: "jsstring list"
  thrown :: "error option"

text \<open>
  \<open>got url\<close> is the outcome of \<open>got(url).json()\<close>: the parsed body, or the error of the
  request. \<open>cast\<close> stands for the unchecked \<open>as MockServerData\<close>, which reads the eight
  bodies as the fields of the dataset.
\<close>

definition handleGenerateCommand ::
    "(real \<Rightarrow> jsstring) \<Rightarrow> (jsstring \<Rightarrow> error + 'j) \<Rightarrow> ('j list \<Rightarrow> MockServerData)
     \<Rightarrow> (nat \<Rightarrow> draws) \<Rightarrow> int \<Rightarrow> jsstring \<Rightarrow> jsstring \<Rightarrow> generate_outcome" where
  "handleGenerateCommand n2s got cast rnd cnt filepath url =
     (case Promise_all (map got (request_urls url)) of
        Inl e \<Rightarrow>
          \<lparr>requested = request_urls url, file_opened = None, written = [], thrown = Some e\<rparr>
      | Inr bodies \<Rightarrow>
          (let mockData = cast bodies;
               (lines, err) = write_lines n2s mockData cnt rnd 0
           in \<lparr>requested = request_urls url, file_opened = Some filepath, written = lines,
               thrown = err\<rparr>))"

section \<open>The importer of \<open>src/cli/cli.ts\<close>\<close>

text \<open>
  The object built for one row. The arguments of \<open>Number\<close> are kept as they are read:
  \<open>Number\<close> does not throw, and the numbers are not used afterwards.
\<close>

record imported =
  imported_title :: "jsstring option"
  imported_description :: "jsstring option"
  imported_city :: "jsstring option"
  imported_previewImage :: "jsstring option"
  imported_photos :: "jsstring list"
  imported_isPremium :: bool
  imported_rating :: "jsstring option"
  imported_type :: "jsstring option"
  imported_rooms :: "jsstring option"
  imported_guests :: "jsstring option"
  imported_price :: "jsstring option"
  imported_features :: "jsstring list"
  imported_author_name :: "jsstring option"
  imported_author_email :: "jsstring option"
  imported_author_avatarUrl :: "jsstring option"
  imported_author_isPro :: bool
  imported_lat :: "jsstring option"
  imported_lon :: "jsstring option"

text \<open>
  The callback of \<open>rows.map\<close>. The destructuring reads the first eighteen elements of
  \<open>row.split('\t')\<close>, \<open>undefined\<close> where the row is shorter; \<open>photos.split(';')\<close> and
  \<open>features.split(';')\<close> throw a \<open>TypeError\<close> on \<open>undefined\<close>.
\<close>

definition import_row :: "jsstring \<Rightarrow> error + imported" where
  "import_row r =
     (let fields = split tab r in
      case index_opt fields 4 of
        None \<Rightarrow> Inl TypeError
      | Some photos' \<Rightarrow>
         (case index_opt fields 11 of
            None \<Rightarrow> Inl TypeError
          | Some features' \<Rightarrow> Inr
             \<lparr>imported_title = index_opt fields 0,
              imported_description = index_opt fields 1,
              imported_city = index_opt fields 2,
              imported_previewImage = index_opt fields 3,
              imported_photos = split 59 photos',
              imported_isPremium = (index_opt fields 5 = Some (js ''true'')),
              imported_rating = index_opt fields 6,
              imported_type = index_opt fields 7,
              imported_rooms = index_opt fields 8,
              imported_guests = index_opt fields 9,
              imported_price = index_opt fields 10,
              imported_features = split 59 features',
              imported_author_name = index_opt fields 12,
              imported_author_email = index_opt fields 13,
              imported_author_avatarUrl = index_opt fields 14,
              imported_author_isPro = (index_opt fields 15 = Some (js ''true'')),
              imported_lat = index_opt fields 16,
              imported_lon = index_opt fields 17\<rparr>))"

text \<open>\<open>rows.map\<close>: the first row that throws ends the whole call.\<close>

fun import_rows :: "jsstring list \<Rightarrow> error + imported list" where
  "import_rows [] = Inr []"
| "import_rows (r # rs) =
     (case import_row r of
        Inl e \<Rightarrow> Inl e
      | Inr x \<Rightarrow> (case import_rows rs of Inl e \<Rightarrow> Inl e | Inr xs \<Rightarrow> Inr (x # xs)))"

text \<open>
  The outcome of the command: the success message with the number of offers, or the
  failure message with the error caught. \<open>file\<close> is the outcome of \<open>readFile\<close>.
\<close>

datatype import_outcome = Imported nat | ImportFailed error

definition handleImportCommand :: "error + jsstring \<Rightarrow> import_outcome" where
  "handleImportCommand file =
     (case file of
        Inl e \<Rightarrow> ImportFailed e
      | Inr content \<Rightarrow>
         (let rows = split nl content in
          case import_rows rows of
            Inl e \<Rightarrow> ImportFailed e
          | Inr data \<Rightarrow> Imported (length data)))"

section \<open>Sample inputs\<close>

text \<open>The example line of the specification, the chunk that carries it, and its JSON text.\<close>

definition example_fields :: "jsstring list" where
  "example_fields =
     [js ''Cozy Loft'', js ''Nice place'', js ''Paris'', js ''img.jpg'', js ''img.jpg;img2.jpg'',
      js ''true'', js ''4.5'', js ''apartment'', js ''2'', js ''4'', js ''120'', js ''wifi;parking'',
      js ''Jane'', js ''jane@x.com'', js ''avatar.jpg'', js ''false'', js ''48.856600'',
      js ''2.352200'']"

definition example_line :: jsstring where
  "example_line = join [tab] example_fields"

definition example_chunk :: buffer where
  "example_chunk = map of_nat (example_line @ [nl])"

definition example_json :: jsstring where
  \<open>example_json = js ''{"title":"Cozy Loft","description":"Nice place","city":"Paris","previewImage":"img.jpg","photos":"img.jpg;img2.jpg","isPremium":"true","rating":"4.5","type":"apartment","rooms":"2","guests":"4","price":"120","features":"wifi;parking","authorName":"Jane","authorEmail":"jane@x.com","authorAvatar":"avatar.jpg","authorIsPro":"false","latitude":"48.856600","longitude":"2.352200"}''\<close>




text \<open>
  A line whose first field is U+00E9 in UTF-8 followed by seventeen empty fields, as one
  chunk and cut between the two bytes of the character.
\<close>

definition whole_chunk :: buffer where
  "whole_chunk = [0xC3, 0xA9] @ replicate 17 9 @ [10]"

definition first_part :: buffer where
  "first_part = [0xC3]"

definition second_part :: buffer where
  "second_part = [0xA9] @ replicate 17 9 @ [10]"

text \<open>The two bytes of U+00E9 in UTF-8, one chunk each: an input with no newline.\<close>

definition cut_character :: "buffer list" where
  "cut_character = [[0xC3], [0xA9]]"

section \<open>Conditions on the draws and on the dataset\<close>

text \<open>A draw of \<open>Math.random()\<close> lies in \<open>[0, 1)\<close>.\<close>

definition unit_draw :: "real \<Rightarrow> bool" where
  "unit_draw u \<longleftrightarrow> 0 \<le> u \<and> u < 1"

text \<open>
  The draws of one iteration: every number is a draw of \<open>Math.random()\<close>, and each
  shuffle returns a rearrangement of the list it is applied to.
\<close>

definition valid_draws :: "MockServerData \<Rightarrow> draws \<Rightarrow> bool" where
  "valid_draws mockData d \<longleftrightarrow>
     unit_draw (u_city d) \<and> unit_draw (u_angle d) \<and> unit_draw (u_radius d)
     \<and> unit_draw (u_photosCount d) \<and> unit_draw (u_user d) \<and> unit_draw (u_title d)
     \<and> unit_draw (u_description d) \<and> unit_draw (u_previewImage d)
     \<and> unit_draw (u_isPremium d) \<and> unit_draw (u_rating d) \<and> unit_draw (u_type d)
     \<and> unit_draw (u_rooms d) \<and> unit_draw (u_guests d) \<and> unit_draw (u_price d)
     \<and> unit_draw (u_featuresCount d)
     \<and> mset (shuffle_photos d (previewImages mockData)) = mset (previewImages mockData)
     \<and> mset (shuffle_features d (features mockData)) = mset (features mockData)"

text \<open>
  The draws that \<open>generateRandomNumber\<close> and the rating are computed from are doubles,
  and the largest double below 1.
\<close>

definition double_draws :: "draws \<Rightarrow> bool" where
  "double_draws d \<longleftrightarrow>
     is_double (u_photosCount d) \<and> is_double (u_rating d) \<and> is_double (u_rooms d)
     \<and> is_double (u_guests d) \<and> is_double (u_price d) \<and> is_double (u_featuresCount d)"

definition top_draw :: real where
  "top_draw = 1 - 1 / 2 ^ 53"

text \<open>A text with no tab and no newline in it.\<close>

definition plain :: "jsstring \<Rightarrow> bool" where
  "plain s \<longleftrightarrow> tab \<notin> set s \<and> nl \<notin> set s"

text \<open>
  A dataset none of whose texts has a tab or a newline, and a dataset that has a city, a
  user, and a coordinate entry for every city.
\<close>

definition plain_data :: "MockServerData \<Rightarrow> bool" where
  "plain_data mockData \<longleftrightarrow>
     list_all plain (titles mockData) \<and> list_all plain (descriptions mockData)
     \<and> list_all plain (cities mockData) \<and> list_all plain (previewImages mockData)
     \<and> list_all plain (propertyTypes mockData) \<and> list_all plain (features mockData)
     \<and> list_all (\<lambda>u. plain (name u) \<and> plain (email u) \<and> plain (avatarUrl u)) (users mockData)"

definition complete_data :: "MockServerData \<Rightarrow> bool" where
  "complete_data mockData \<longleftrightarrow>
     cities mockData \<noteq> [] \<and> users mockData \<noteq> []
     \<and> list_all (\<lambda>c. coordinates mockData c \<noteq> None) (cities mockData)"

section \<open>Sample datasets\<close>

text \<open>
  A small dataset, the draws that are all zero with shuffles that keep the order, and the
  offer, row and line they give. \<open>sample_n2s\<close> stands for the exponent notation of
  large numbers, which these samples never reach.
\<close>

definition sample_n2s :: "real \<Rightarrow> jsstring" where
  "sample_n2s x = js ''1e+21''"

definition sample_center :: center where
  "sample_center = \<lparr>latitude = rd 48.8566, longitude = rd 2.3522, radius = 10\<rparr>"

definition sample_data :: MockServerData where
  "sample_data =
     \<lparr>titles = [js ''Cozy Loft''],
      descriptions = [js ''Nice place''],
      cities = [js ''Paris''],
      previewImages = [js ''img.jpg'', js ''img2.jpg'', js ''img3.jpg''],
      propertyTypes = [js ''apartment''],
      features = [js ''wifi'', js ''parking''],
      users = [\<lparr>name = js ''Jane'', email = js ''jane@x.com'', avatarUrl = js ''avatar.jpg'',
                type = js ''pro''\<rparr>],
      coordinates = [js ''Paris'' \<mapsto> sample_center]\<rparr>"

definition sample_draws :: draws where
  "sample_draws =
     \<lparr>u_city = 0, u_angle = 0, u_radius = 0, u_photosCount = 0, shuffle_photos = (\<lambda>items. items),
      u_user = 0, u_title = 0, u_description = 0, u_previewImage = 0, u_isPremium = 0,
      u_rating = 0, u_type = 0, u_rooms = 0, u_guests = 0, u_price = 0, u_featuresCount = 0,
      shuffle_features = (\<lambda>items. items)\<rparr>"

definition sample_offer :: offer where
  "sample_offer =
     \<lparr>title = Some (js ''Cozy Loft''), description = Some (js ''Nice place''),
      city = Some (js ''Paris''), previewImage = Some (js ''img.jpg''),
      photos = js ''img.jpg;img2.jpg;img3.jpg'', isPremium = True, rating = js ''3.0'',
      offer_type = Some (js ''apartment''), rooms = 1, guests = 1, price = 50,
      offer_features = js ''wifi;parking'', authorName = js ''Jane'',
      authorEmail = js ''jane@x.com'', authorAvatar = js ''avatar.jpg'', authorIsPro = True,
      offer_latitude = js ''48.856600'', offer_longitude = js ''2.352200''\<rparr>"

definition sample_row :: "jsstring list" where
  "sample_row =
     [js ''Cozy Loft'', js ''Nice place'', js ''Paris'', js ''img.jpg'',
      js ''img.jpg;img2.jpg;img3.jpg'', js ''true'', js ''3.0'', js ''apartment'', js ''1'',
      js ''1'', js ''50'', js ''wifi;parking'', js ''Jane'', js ''jane@x.com'', js ''avatar.jpg'',
      js ''true'', js ''48.856600'', js ''2.352200'']"

text \<open>The same dataset with a single preview image, and with a tab inside its title.\<close>

definition few_photos_data :: MockServerData where
  "few_photos_data = sample_data\<lparr>previewImages := [js ''img.jpg'']\<rparr>"

definition tab_title_data :: MockServerData where
  "tab_title_data = sample_data\<lparr>titles := [js ''Cozy'' @ [tab] @ js ''Loft'']\<rparr>"

text \<open>
  A server address, a server whose \<open>users\<close> request fails, and one that answers every
  request.
\<close>

definition sample_url :: jsstring where
  "sample_url = js ''http://localhost:3123''"

definition failing_got :: "jsstring \<Rightarrow> error + nat" where
  "failing_got u = (if u = sample_url @ js ''/users'' then Inl RequestError else Inr 0)"

definition working_got :: "jsstring \<Rightarrow> error + nat" where
  "working_got u = Inr 0"

section \<open>Properties of \<open>split\<close> and of the object of a line\<close>

lemma split_not_Nil [simp]: "split sep s \<noteq> []"
  by (induction s) (auto split: list.splits)

lemma split_no_sep: "sep \<notin> set s \<Longrightarrow> split sep s = [s]"
  by (induction s) auto

lemma split_sep_free: "l \<in> set (split sep s) \<Longrightarrow> sep \<notin> set l"
  by (induction s arbitrary: l) (auto split: if_splits list.splits)

lemma split_line: "sep \<notin> set l \<Longrightarrow> split sep (l @ sep # t) = l # split sep t"
  by (induction l) auto

lemma split_append:
  "split sep (a @ b) = butlast (split sep a) @ split sep (last (split sep a) @ b)"
proof (induction a)
  case Nil
  show ?case by simp
next
  case (Cons c a)
  show ?case
  proof (cases "c = sep")
    case True
    with Cons show ?thesis by simp
  next
    case False
    obtain l ls where s: "split sep a = l # ls"
      by (cases "split sep a") auto
    show ?thesis
    proof (cases ls)
      case Nil
      with s Cons False show ?thesis by simp
    next
      case (Cons m ms)
      with s Cons.IH False show ?thesis by simp
    qed
  qed
qed

lemma last_split_sep_free: "sep \<notin> set (last (split sep s))"
  using split_sep_free [of "last (split sep s)" sep s] by simp

lemma split_snoc_line:
  "sep \<notin> set b \<Longrightarrow> split sep (a @ sep # b) = butlast (split sep a) @ [last (split sep a), b]"
  by (simp add: split_append [of sep a] split_line last_split_sep_free split_no_sep)

lemma last_split: "last (split sep s) = rev (takeWhile (\<lambda>c. c \<noteq> sep) (rev s))"
proof (cases "sep \<in> set s")
  case True
  then obtain a b where s: "s = a @ sep # b" and b: "sep \<notin> set b"
    by (auto dest: split_list_last)
  have "takeWhile (\<lambda>c. c \<noteq> sep) (rev b @ sep # rev a) = rev b"
    using b by (auto simp add: takeWhile_tail)
  with s b show ?thesis by (simp add: split_snoc_line)
next
  case False
  then have "takeWhile (\<lambda>c. c \<noteq> sep) (rev s) = rev s"
    by (auto intro: takeWhile_eq_all_conv [THEN iffD2])
  then have "rev (takeWhile (\<lambda>c. c \<noteq> sep) (rev s)) = s"
    by (simp only: rev_rev_ident)
  moreover from False have "last (split sep s) = s"
    by (simp add: split_no_sep)
  ultimately show ?thesis by (simp only:)
qed


lemma split_unlines:
  "\<forall>l \<in> set ls. nl \<notin> set l \<Longrightarrow> split nl (unlines ls @ t) = ls @ split nl t"
  by (induction ls) (simp_all add: unlines_def split_line)

lemma length_columns: "length columns = 18"
  by (simp add: columns_def)

lemma distinct_columns: "distinct columns"
  by (simp add: columns_def js_def)

lemma set_prop_fresh: "k \<notin> fst ` set obj \<Longrightarrow> set_prop obj k v = obj @ [(k, v)]"
  by (induction obj) auto

lemma foldl_set_prop:
  "distinct (map fst (obj @ es)) \<Longrightarrow> foldl (\<lambda>obj (k, v). set_prop obj k v) obj es = obj @ es"
proof (induction es arbitrary: obj)
  case Nil
  show ?case by simp
next
  case (Cons e es)
  obtain k v where e: "e = (k, v)" by (cases e)
  from Cons.prems e have "k \<notin> fst ` set obj" by auto
  then have "set_prop obj k v = obj @ [(k, v)]" by (rule set_prop_fresh)
  moreover from Cons.prems e have "distinct (map fst ((obj @ [(k, v)]) @ es))" by simp
  ultimately show ?case using Cons.IH [of "obj @ [(k, v)]"] e by simp
qed

lemma fromEntries_distinct: "distinct (map fst es) \<Longrightarrow> fromEntries es = es"
  using foldl_set_prop [of "[]" es] by (simp add: fromEntries_def)

lemma entries_zip:
  assumes "length values = length columns"
  shows "map (\<lambda>index. (columns ! index, index_opt values index)) [0..<length columns]
         = zip columns (map Some values)"
  using assms by (intro nth_equalityI) (simp_all add: index_opt_def)

lemma offer_object_zip:
  assumes "length values = length columns"
  shows "offer_object values = zip columns (map Some values)"
proof -
  have "distinct (map fst (zip columns (map Some values)))"
    using assms distinct_columns by simp
  then show ?thesis
    using assms by (simp add: offer_object_def entries_zip fromEntries_distinct)
qed


lemma transform_eq:
  "transform this chunk =
     (this\<lparr>remainder := last (split nl (remainder this @ toString chunk))\<rparr>,
      concat (map transform_line (butlast (split nl (remainder this @ toString chunk)))))"
  by (auto simp add: transform_def Let_def)

lemma feed_text:
  "nl \<notin> set (remainder this) \<Longrightarrow>
   feed this chunks =
     (this\<lparr>remainder := last (split nl (remainder this @ concat (map toString chunks)))\<rparr>,
      concat (map transform_line
        (butlast (split nl (remainder this @ concat (map toString chunks))))))"
proof (induction chunks arbitrary: this)
  case Nil
  then show ?case by (simp add: split_no_sep)
next
  case (Cons chunk chunks)
  let ?r = "remainder this @ toString chunk"
  let ?T = "concat (map toString chunks)"
  let ?this' = "this\<lparr>remainder := last (split nl ?r)\<rparr>"
  have inv: "nl \<notin> set (remainder ?this')"
    by (simp add: last_split_sep_free)
  have sp: "split nl (remainder this @ concat (map toString (chunk # chunks)))
            = butlast (split nl ?r) @ split nl (last (split nl ?r) @ ?T)"
    using split_append [of nl ?r ?T] by simp
  have l: "last (split nl (remainder this @ concat (map toString (chunk # chunks))))
           = last (split nl (last (split nl ?r) @ ?T))"
    by (simp only: sp) simp
  have b: "butlast (split nl (remainder this @ concat (map toString (chunk # chunks))))
           = butlast (split nl ?r) @ butlast (split nl (last (split nl ?r) @ ?T))"
    by (simp only: sp) (simp add: butlast_append)
  show ?case
    by (simp only: l b) (simp add: transform_eq Cons.IH [OF inv])
qed

lemma run_text:
  "run chunks =
     concat (map transform_line (butlast (split nl (concat (map toString chunks)))))
     @ flush \<lparr>remainder = last (split nl (concat (map toString chunks)))\<rparr>"
  by (simp add: run_def constructor_def feed_text)

text \<open>
  The output depends on the chunks only through the text they decode to: two ways of
  cutting the input that decode to the same text give the same events. This covers every
  cut of an input of ASCII bytes.
\<close>

lemma run_text_independent:
  "concat (map toString chunks) = concat (map toString chunks') \<Longrightarrow> run chunks = run chunks'"
  by (simp add: run_text)

lemma utf8_dec_ascii:
  "\<forall>b \<in> set bs. b \<le> 0x7F \<Longrightarrow> utf8_dec cp 0 lo hi bs = bs"
  by (induction bs arbitrary: cp lo hi) simp_all

lemma concat_utf16_bmp:
  "\<forall>c \<in> set cs. c < 0x10000 \<Longrightarrow> concat (map utf16_encode cs) = cs"
  by (induction cs) (simp_all add: utf16_encode_def)

lemma toString_ascii:
  assumes "\<forall>b \<in> set chunk. b \<le> 0x7F"
  shows "toString chunk = map unat chunk"
proof -
  have a: "\<forall>b \<in> set (map unat chunk). b \<le> 0x7F"
    using assms by (auto simp add: word_le_nat_alt)
  then have "\<forall>c \<in> set (map unat chunk). c < 0x10000"
    by fastforce
  with a show ?thesis
    by (simp only: toString_def utf8_dec_ascii concat_utf16_bmp)
qed

lemma ascii_text:
  "\<forall>b \<in> set (concat chunks). b \<le> 0x7F \<Longrightarrow> concat (map toString chunks) = map unat (concat chunks)"
  by (induction chunks) (simp_all add: toString_ascii)

lemma ascii_boundaries:
  assumes "\<forall>b \<in> set (concat chunks). b \<le> 0x7F"
  shows "concat (map toString chunks) = toString (concat chunks)"
  using assms by (simp add: ascii_text toString_ascii)

lemma run_ascii_independent:
  assumes "\<forall>b \<in> set (concat chunks). b \<le> 0x7F" and "\<forall>b \<in> set (concat chunks'). b \<le> 0x7F"
    and "concat chunks = concat chunks'"
  shows "run chunks = run chunks'"
  using assms by (intro run_text_independent) (simp only: ascii_text)

text \<open>
  The remainder starts empty; after any sequence of chunks it holds no newline, and it is
  the text after the last newline of the texts that the chunks decode to one by one, put
  together. For an input of ASCII bytes this is the text after the last newline of the
  input, however it is cut.
\<close>

lemma remainder_text:
  "remainder constructor = []
   \<and> nl \<notin> set (remainder (fst (feed constructor chunks)))
   \<and> remainder (fst (feed constructor chunks))
       = rev (takeWhile (\<lambda>c. c \<noteq> nl) (rev (concat (map toString chunks))))"
proof -
  have "remainder (fst (feed constructor chunks))
        = last (split nl (concat (map toString chunks)))"
    by (simp add: feed_text constructor_def)
  then show ?thesis
    by (simp add: last_split_sep_free last_split [symmetric] constructor_def)
qed

lemma remainder_ascii:
  assumes "\<forall>b \<in> set (concat chunks). b \<le> 0x7F"
  shows "remainder (fst (feed constructor chunks))
         = rev (takeWhile (\<lambda>c. c \<noteq> nl) (rev (toString (concat chunks))))"
  using remainder_text [of chunks] by (simp add: ascii_boundaries [OF assms])

text \<open>
  Claim C9. The remainder is not always the text of the input after its last newline: when
  the two bytes of U+00E9 come in two chunks, the input is that one character, with no
  newline in it, and the remainder is two replacement characters.
\<close>

theorem remainder_differs_from_input:
  "concat cut_character = [0xC3, 0xA9]
   \<and> toString (concat cut_character) = [0xE9]
   \<and> nl \<notin> set (toString (concat cut_character))
   \<and> remainder (fst (feed constructor cut_character)) = [0xFFFD, 0xFFFD]
   \<and> remainder (fst (feed constructor cut_character)) \<noteq> toString (concat cut_character)"
proof -
  have a: "toString (concat cut_character) = [0xE9]"
    by (simp add: cut_character_def toString_def utf16_encode_def)
  have b: "toString [0xC3] = [0xFFFD]" "toString [0xA9] = [0xFFFD]"
    by (simp_all add: toString_def utf16_encode_def)
  have "concat (map toString cut_character) = [0xFFFD, 0xFFFD]"
    by (simp add: cut_character_def b)
  moreover have "remainder (fst (feed constructor cut_character))
        = rev (takeWhile (\<lambda>c. c \<noteq> nl) (rev (concat (map toString cut_character))))"
    using remainder_text [of cut_character] by (simp only:)
  ultimately have c: "remainder (fst (feed constructor cut_character)) = [0xFFFD, 0xFFFD]"
    by (simp add: nl_def)
  have d: "concat cut_character = [0xC3, 0xA9]"
    by (simp add: cut_character_def)
  from a c d show ?thesis by (simp add: nl_def)
qed

lemma split_tabs: "split tab (replicate n tab) = replicate (Suc n) []"
  by (induction n) simp_all

lemma split_tabs_after: "tab \<notin> set s \<Longrightarrow> split tab (s @ replicate n tab) = s # replicate n []"
  by (induction s) (simp_all add: split_tabs)

lemma trim_blank: "\<forall>c \<in> set s. is_ws c \<Longrightarrow> trim s = []"
proof -
  assume "\<forall>c \<in> set s. is_ws c"
  then have d: "dropWhile is_ws s = []" by simp
  show ?thesis unfolding trim_def d by simp
qed

lemma trim_not_blank: "s \<noteq> [] \<Longrightarrow> \<not> is_ws (hd s) \<Longrightarrow> trim s \<noteq> []"
  by (cases s) (simp_all add: trim_def)

lemma transform_line_tabs: "transform_line (replicate n tab) = []"
proof -
  have "trim (replicate n tab) = []"
    by (rule trim_blank) (simp add: is_ws_def tab_def)
  then show ?thesis by (simp add: transform_line_def)
qed

text \<open>
  Claim C4. At the end of the input the flush step is not the step applied to complete
  lines: a remainder of seventeen tabs is white space, which the loop of \<open>_transform\<close>
  skips, but \<open>_flush\<close> emits it as an object of eighteen empty strings; and a remainder
  with a wrong number of fields, for which the loop prints a warning, is dropped by
  \<open>_flush\<close> without one.
\<close>

theorem flush_differs:
  "transform_line (replicate 17 tab) = []
   \<and> flush \<lparr>remainder = replicate 17 tab\<rparr> = [Push (offer_json (replicate 18 []))]
   \<and> transform_line (js ''a'') = [Warn (js ''Warning: Skipping invalid line: a'')]
   \<and> flush \<lparr>remainder = js ''a''\<rparr> = []"
proof -
  have a: "transform_line (replicate 17 tab) = []"
    by (rule transform_line_tabs)
  have b: "flush \<lparr>remainder = replicate 17 tab\<rparr> = [Push (offer_json (replicate 18 []))]"
    by (simp add: flush_def split_tabs length_columns)
  have "trim (js ''a'') \<noteq> []"
    by (rule trim_not_blank) (simp_all add: is_ws_def js_def)
  moreover have s: "split tab (js ''a'') = [js ''a'']"
    by (simp add: js_def tab_def)
  ultimately have c: "transform_line (js ''a'') = [Warn (js ''Warning: Skipping invalid line: a'')]"
    by (simp add: transform_line_def length_columns js_def)
  have d: "flush \<lparr>remainder = js ''a''\<rparr> = []"
    using s by (simp add: flush_def length_columns)
  from a b c d show ?thesis by simp
qed

lemma transform_line_valid:
  assumes "trim line \<noteq> []" and "length (split tab line) = 18"
  shows "transform_line line = [Push (offer_json (split tab line))]"
  using assms by (simp add: transform_line_def length_columns)


lemma feed_lines:
  assumes "\<forall>l \<in> set ls. nl \<notin> set l" and "nl \<notin> set rest"
    and "concat (map toString chunks) = unlines ls @ rest"
  shows "feed constructor chunks = (\<lparr>remainder = rest\<rparr>, concat (map transform_line ls))"
proof -
  have "split nl (concat (map toString chunks)) = ls @ [rest]"
    using assms by (simp add: split_unlines split_no_sep)
  then show ?thesis by (simp add: feed_text constructor_def)
qed



text \<open>
  Claim C2, amended. In a stream whose chunk boundaries do not fall inside a character
  (decoding the chunks one by one gives the text of the whole input), a complete line of
  the input with exactly eighteen tab-separated fields that is not white space only is
  pushed, at its place among the events of the other lines, as one line: the JSON text of
  the object that pairs the eighteen column names, in order, with the fields as they were
  split.
\<close>

theorem valid_line_json:
  assumes "nl \<notin> set line" and "trim line \<noteq> []" and "length (split tab line) = 18"
    and "\<forall>l \<in> set before \<union> set after. nl \<notin> set l" and "nl \<notin> set rest"
    and "concat (map toString chunks) = toString (concat chunks)"
    and "toString (concat chunks) = unlines (before @ [line] @ after) @ rest"
  shows "feed constructor chunks =
           (\<lparr>remainder = rest\<rparr>,
            concat (map transform_line before)
            @ [Push (JSON_stringify (zip columns (map Some (split tab line))) @ [nl])]
            @ concat (map transform_line after))"
proof -
  have "\<forall>l \<in> set (before @ [line] @ after). nl \<notin> set l"
    using assms(1,4) by auto
  moreover have "concat (map toString chunks) = unlines (before @ [line] @ after) @ rest"
    using assms(6,7) by simp
  ultimately
  have "feed constructor chunks =
          (\<lparr>remainder = rest\<rparr>, concat (map transform_line (before @ [line] @ after)))"
    using assms(5) by (intro feed_lines)
  moreover have "offer_object (split tab line) = zip columns (map Some (split tab line))"
    using assms(3) by (simp add: offer_object_zip length_columns)
  ultimately show ?thesis
    using assms(2,3) by (simp add: transform_line_valid offer_json_def)
qed


lemma example_no_nl: "nl \<notin> set example_line"
  by (simp add: example_line_def example_fields_def js_def tab_def nl_def)

lemma example_not_blank: "trim example_line \<noteq> []"
  by (rule trim_not_blank) (simp_all add: example_line_def example_fields_def js_def tab_def is_ws_def)

lemma example_split: "split tab example_line = example_fields"
  by (simp add: example_line_def example_fields_def js_def tab_def)

lemma example_18: "length (split tab example_line) = 18"
  by (simp add: example_split) (simp add: example_fields_def)

lemma example_text: "toString example_chunk = example_line @ [nl]"
proof -
  have "\<forall>b \<in> set example_chunk. b \<le> 0x7F"
    by (simp add: example_chunk_def example_line_def example_fields_def js_def tab_def nl_def)
  then have "toString example_chunk = map unat example_chunk"
    by (rule toString_ascii)
  also have "\<dots> = example_line @ [nl]"
    by (simp add: example_chunk_def example_line_def example_fields_def js_def tab_def nl_def)
  finally show ?thesis .
qed

lemma toString_cut_ascii:
  assumes "\<forall>b \<in> set chunk. b \<le> 0x7F"
  shows "toString (take n chunk) @ toString (drop n chunk) = toString chunk"
proof -
  have "\<forall>b \<in> set (take n chunk). b \<le> 0x7F" "\<forall>b \<in> set (drop n chunk). b \<le> 0x7F"
    using assms by (auto dest: in_set_takeD in_set_dropD)
  then have "toString (take n chunk) @ toString (drop n chunk)
             = map unat (take n chunk) @ map unat (drop n chunk)"
    by (simp add: toString_ascii)
  also have "\<dots> = map unat chunk"
    by (simp add: map_append [symmetric] del: map_append)
  finally show ?thesis using assms by (simp add: toString_ascii)
qed

lemma example_ascii: "\<forall>b \<in> set example_chunk. b \<le> 0x7F"
  by (simp add: example_chunk_def example_line_def example_fields_def js_def tab_def nl_def)

lemma example_cut:
  "concat (map toString [take 40 example_chunk, drop 40 example_chunk])
   = toString (concat [take 40 example_chunk, drop 40 example_chunk])"
  by (rule ascii_boundaries) (simp add: example_ascii)

lemma example_cut_text:
  "toString (concat [take 40 example_chunk, drop 40 example_chunk])
   = unlines ([] @ [example_line] @ []) @ []"
  by (simp add: example_text unlines_def)

lemma example_stringify: "JSON_stringify (zip columns (map Some example_fields)) = example_json"
  by (simp add: JSON_stringify_def columns_def example_fields_def stringify_prop_def
      quoteJSONString_def quote_unit_def is_lead_def is_trail_def js_def example_json_def)

text \<open>
  The theorem of claim C2 at the example line of the specification, fed as one chunk and
  cut in two after forty bytes: it is transcoded to the JSON text given there.
\<close>

theorem valid_line_json_witness:
  "nl \<notin> set example_line \<and> trim example_line \<noteq> [] \<and> length (split tab example_line) = 18
   \<and> concat (map toString [take 40 example_chunk, drop 40 example_chunk])
       = toString (concat [take 40 example_chunk, drop 40 example_chunk])
   \<and> toString (concat [take 40 example_chunk, drop 40 example_chunk])
       = unlines ([] @ [example_line] @ []) @ []
   \<and> feed constructor [take 40 example_chunk, drop 40 example_chunk]
       = (\<lparr>remainder = []\<rparr>, [Push (example_json @ [nl])])
   \<and> concat (map toString [example_chunk]) = toString (concat [example_chunk])
   \<and> toString (concat [example_chunk]) = unlines ([] @ [example_line] @ []) @ []
   \<and> run [example_chunk] = [Push (example_json @ [nl])]"
proof -
  have e: "\<forall>l \<in> set [] \<union> set []. nl \<notin> set (l :: jsstring)" "nl \<notin> set []"
    by simp_all
  have one: "concat (map toString [example_chunk]) = toString (concat [example_chunk])"
    by simp
  have one_text: "toString (concat [example_chunk]) = unlines ([] @ [example_line] @ []) @ []"
    by (simp add: example_text unlines_def)
  have a: "feed constructor [take 40 example_chunk, drop 40 example_chunk]
           = (\<lparr>remainder = []\<rparr>, [Push (example_json @ [nl])])"
    using valid_line_json [OF example_no_nl example_not_blank example_18 e example_cut
        example_cut_text]
    by (simp only: example_split example_stringify) simp
  have "feed constructor [example_chunk] = (\<lparr>remainder = []\<rparr>, [Push (example_json @ [nl])])"
    using valid_line_json [OF example_no_nl example_not_blank example_18 e one one_text]
    by (simp only: example_split example_stringify) simp
  then have b: "run [example_chunk] = [Push (example_json @ [nl])]"
    by (simp add: run_def flush_def)
  from example_no_nl example_not_blank example_18 example_cut example_cut_text a one one_text b
  show ?thesis
    by (simp only:) simp
qed

lemma toString_of_nat_ascii:
  assumes "\<forall>c \<in> set s. c \<le> 0x7F"
  shows "toString (map of_nat s) = s"
proof -
  have u: "unat (of_nat c :: 8 word) = c" if "c \<le> 0x7F" for c
    using that by (simp add: unat_of_nat)
  have m: "map unat (map of_nat s :: buffer) = s"
    using assms u by (simp add: map_idI)
  have "\<forall>b \<in> set (map of_nat s :: buffer). b \<le> 0x7F"
    using assms u by (auto simp add: word_le_nat_alt)
  then have "toString (map of_nat s) = map unat (map of_nat s :: buffer)"
    by (rule toString_ascii)
  with m show ?thesis by simp
qed


text \<open>
  Claim C2 as stated fails: a line of seventeen tabs has eighteen fields, all empty, and
  the transcoder emits nothing for it.
\<close>

theorem whitespace_line_counterexample:
  "nl \<notin> set (replicate 17 tab) \<and> length (split tab (replicate 17 tab)) = 18
   \<and> run [map of_nat (replicate 17 tab @ [nl])] = []"
proof -
  have "toString (map of_nat (replicate 17 tab @ [nl])) = replicate 17 tab @ [nl]"
    by (rule toString_of_nat_ascii) (simp add: tab_def nl_def)
  moreover have "split nl (replicate 17 tab @ [nl]) = [replicate 17 tab, []]"
    using split_line [of nl "replicate 17 tab" "[]"] by (simp add: tab_def nl_def)
  moreover have "transform_line (replicate 17 tab) = []"
    by (rule transform_line_tabs)
  ultimately have "run [map of_nat (replicate 17 tab @ [nl])] = []"
    by (simp add: run_text flush_def)
  then show ?thesis
    by (simp add: split_tabs) (simp add: tab_def nl_def)
qed









lemma run_single_line:
  assumes "concat (map toString chunks) = line @ [nl]" and "nl \<notin> set line"
  shows "run chunks = transform_line line"
proof -
  have "split nl (line @ [nl]) = [line, []]"
    using split_line [of nl line "[]"] assms(2) by simp
  with assms(1) show ?thesis by (simp add: run_text flush_def)
qed

lemma utf8_dec_tabs: "utf8_dec 0 0 0x80 0xBF (replicate n tab @ [nl]) = replicate n tab @ [nl]"
  by (rule utf8_dec_ascii) (simp add: tab_def nl_def)

lemma bmp_tabs: "concat (map utf16_encode (replicate n tab @ [nl])) = replicate n tab @ [nl]"
  by (rule concat_utf16_bmp) (simp add: tab_def nl_def)

lemma toString_whole: "toString whole_chunk = [0xE9] @ replicate 17 tab @ [nl]"
proof -
  have "utf8_dec 0 0 0x80 0xBF (map unat whole_chunk)
        = 0xE9 # utf8_dec 0 0 0x80 0xBF (replicate 17 tab @ [nl])"
    by (simp add: whole_chunk_def tab_def nl_def)
  then show ?thesis
    using bmp_tabs [of 17] by (simp add: toString_def utf8_dec_tabs utf16_encode_def)
qed

lemma toString_first: "toString first_part = [0xFFFD]"
  by (simp add: toString_def first_part_def utf16_encode_def)

lemma toString_second: "toString second_part = [0xFFFD] @ replicate 17 tab @ [nl]"
proof -
  have "utf8_dec 0 0 0x80 0xBF (map unat second_part)
        = 0xFFFD # utf8_dec 0 0 0x80 0xBF (replicate 17 tab @ [nl])"
    by (simp add: second_part_def tab_def nl_def)
  then show ?thesis
    using bmp_tabs [of 17] by (simp add: toString_def utf8_dec_tabs utf16_encode_def)
qed

lemma offer_json_first_field:
  "offer_json (v # replicate 17 []) = offer_json (w # replicate 17 []) \<Longrightarrow> quote_units v = quote_units w"
  by (simp add: offer_json_def offer_object_zip length_columns JSON_stringify_def columns_def
      stringify_prop_def quoteJSONString_def eval_nat_numeral)

text \<open>
  Claim C1. The same bytes give different output when a chunk boundary falls inside a
  character: each chunk is decoded by itself, so the two halves of U+00E9 become two
  replacement characters.
\<close>

theorem split_character_changes_output:
  "whole_chunk = first_part @ second_part
   \<and> pushed (run [whole_chunk]) = [offer_json ([0xE9] # replicate 17 [])]
   \<and> pushed (run [first_part, second_part]) = [offer_json ([0xFFFD, 0xFFFD] # replicate 17 [])]
   \<and> pushed (run [whole_chunk]) \<noteq> pushed (run [first_part, second_part])"
proof -
  have w: "whole_chunk = first_part @ second_part"
    by (simp add: whole_chunk_def first_part_def second_part_def)
  have t: "tab \<notin> set [0xE9]" "tab \<notin> set [0xFFFD, 0xFFFD]"
    by (simp_all add: tab_def)
  have n: "nl \<notin> set ([0xE9] @ replicate 17 tab)" "nl \<notin> set ([0xFFFD, 0xFFFD] @ replicate 17 tab)"
    by (simp_all add: tab_def nl_def)
  have "run [whole_chunk] = transform_line ([0xE9] @ replicate 17 tab)"
    by (rule run_single_line [OF _ n(1)]) (simp add: toString_whole)
  moreover have "trim ([0xE9] @ replicate 17 tab) \<noteq> []"
    by (rule trim_not_blank) (simp_all add: is_ws_def)
  ultimately have a: "run [whole_chunk] = [Push (offer_json ([0xE9] # replicate 17 []))]"
    using split_tabs_after [OF t(1), of 17] by (simp add: transform_line_valid)
  have "run [first_part, second_part] = transform_line ([0xFFFD, 0xFFFD] @ replicate 17 tab)"
    by (rule run_single_line [OF _ n(2)]) (simp add: toString_first toString_second)
  moreover have "trim ([0xFFFD, 0xFFFD] @ replicate 17 tab) \<noteq> []"
    by (rule trim_not_blank) (simp_all add: is_ws_def)
  ultimately have b: "run [first_part, second_part]
                      = [Push (offer_json ([0xFFFD, 0xFFFD] # replicate 17 []))]"
    using split_tabs_after [OF t(2), of 17] by (simp add: transform_line_valid)
  have "quote_units [0xE9] \<noteq> quote_units [0xFFFD, 0xFFFD]"
    by (simp add: quote_unit_def is_lead_def is_trail_def)
  then have "offer_json ([0xE9] # replicate 17 []) \<noteq> offer_json ([0xFFFD, 0xFFFD] # replicate 17 [])"
    using offer_json_first_field by blast
  with w a b show ?thesis by simp
qed

section \<open>Rounding to doubles\<close>

lemma pow2_powr: "pow2 e = 2 powr (real_of_int e)"
  by (simp add: pow2_def powr_int)

lemma pow2_pos [simp]: "0 < pow2 e"
  by (simp add: pow2_powr)

lemma pow2_nonneg [simp]: "0 \<le> pow2 e"
  by (simp add: pow2_powr)

lemma pow2_neq0 [simp]: "pow2 e \<noteq> 0"
  by (simp add: pow2_powr)

lemma pow2_mono: "a \<le> b \<Longrightarrow> pow2 a \<le> pow2 b"
  by (simp add: pow2_powr)

lemma pow2_strict_mono: "a < b \<Longrightarrow> pow2 a < pow2 b"
  by (simp add: pow2_powr)

lemma pow2_add: "pow2 (a + b) = pow2 a * pow2 b"
  by (simp add: pow2_powr powr_add)

lemma pow2_nat: "0 \<le> e \<Longrightarrow> pow2 e = of_int (2 ^ nat e)"
  by (simp add: pow2_def)

lemma pow2_split:
  shows "pow2 e = pow2 (e - 52) * 2 ^ 52" and "pow2 (e + 1) = pow2 (e - 52) * 2 ^ 53"
proof -
  have a: "pow2 52 = 2 ^ 52" "pow2 53 = 2 ^ 53" by (simp_all add: pow2_def)
  show "pow2 e = pow2 (e - 52) * 2 ^ 52"
    using pow2_add [of "e - 52" 52] by (simp add: a)
  show "pow2 (e + 1) = pow2 (e - 52) * 2 ^ 53"
    using pow2_add [of "e - 52" 53] by (simp add: a add.commute)
qed

lemma binade_eq:
  assumes "pow2 e \<le> \<bar>x\<bar>" and "\<bar>x\<bar> < pow2 (e + 1)"
  shows "binade x = e"
proof -
  have "0 < \<bar>x\<bar>" using assms(1) pow2_pos [of e] by linarith
  then show ?thesis
    using assms by (simp add: binade_def floor_log_eq_powr_iff pow2_powr)
qed

lemma binade_bounds:
  assumes "x \<noteq> 0"
  shows "pow2 (binade x) \<le> \<bar>x\<bar>" and "\<bar>x\<bar> < pow2 (binade x + 1)"
proof -
  have "0 < \<bar>x\<bar>" using assms by simp
  then have "2 powr (real_of_int (binade x)) \<le> \<bar>x\<bar> \<and> \<bar>x\<bar> < 2 powr (real_of_int (binade x) + 1)"
    using floor_log_eq_powr_iff [of "\<bar>x\<bar>" 2 "binade x"] by (simp add: binade_def)
  then show "pow2 (binade x) \<le> \<bar>x\<bar>" and "\<bar>x\<bar> < pow2 (binade x + 1)"
    by (simp_all add: pow2_powr)
qed

lemma round_even_int [simp]: "round_even (of_int k) = k"
  by (simp add: round_even_def)

lemma round_even_lower: "\<lfloor>q\<rfloor> \<le> round_even q"
  by (simp add: round_even_def Let_def)

lemma round_even_upper: "round_even q \<le> \<lfloor>q\<rfloor> + 1"
  by (simp add: round_even_def Let_def)

lemma round_even_mono:
  assumes "p \<le> q"
  shows "round_even p \<le> round_even q"
proof (cases "\<lfloor>p\<rfloor> = \<lfloor>q\<rfloor>")
  case True
  with assms show ?thesis
    by (auto simp add: round_even_def Let_def)
next
  case False
  with assms have "\<lfloor>p\<rfloor> < \<lfloor>q\<rfloor>" using floor_mono [of p q] by linarith
  then have "round_even p \<le> \<lfloor>q\<rfloor>" using round_even_upper [of p] by linarith
  then show ?thesis using round_even_lower [of q] by linarith
qed

lemma expo_eq:
  assumes "pow2 e \<le> \<bar>x\<bar>" and "\<bar>x\<bar> < pow2 (e + 1)" and "- 1022 \<le> e"
  shows "expo x = e"
  using assms(3) by (simp add: expo_def binade_eq [OF assms(1,2)])

lemma expo_upper:
  assumes "x \<noteq> 0"
  shows "\<bar>x\<bar> < pow2 (expo x + 1)"
proof -
  have "pow2 (binade x + 1) \<le> pow2 (expo x + 1)"
    by (rule pow2_mono) (simp add: expo_def)
  with binade_bounds(2) [OF assms] show ?thesis by linarith
qed

lemma rd_at:
  "x \<noteq> 0 \<Longrightarrow> rd x = pow2 (expo x - 52) * of_int (round_even (x / pow2 (expo x - 52)))"
  by (simp add: rd_def Let_def)

lemma rd_eval:
  assumes "pow2 e \<le> \<bar>x\<bar>" and "\<bar>x\<bar> < pow2 (e + 1)" and "- 1022 \<le> e"
  shows "rd x = pow2 (e - 52) * of_int (round_even (x / pow2 (e - 52)))"
proof -
  have "0 < \<bar>x\<bar>" using assms(1) pow2_pos [of e] by linarith
  then have "x \<noteq> 0" by simp
  then show ?thesis
    by (simp add: rd_at expo_eq [OF assms])
qed

lemma rd_0 [simp]: "rd 0 = 0"
  by (simp add: rd_def)

lemma rd_nonneg:
  assumes "0 \<le> x"
  shows "0 \<le> rd x"
proof (cases "x = 0")
  case True
  then show ?thesis by simp
next
  case False
  let ?u = "pow2 (expo x - 52)"
  have "0 \<le> x / ?u" using assms by simp
  then have "0 \<le> \<lfloor>x / ?u\<rfloor>" by simp
  then have "0 \<le> round_even (x / ?u)" using round_even_lower [of "x / ?u"] by linarith
  then show ?thesis by (simp add: rd_at [OF False])
qed

lemma rd_upper:
  assumes "0 < x"
  shows "rd x \<le> pow2 (expo x + 1)"
proof -
  let ?u = "pow2 (expo x - 52)"
  have nz: "x \<noteq> 0" and a: "\<bar>x\<bar> = x" using assms by simp_all
  have hi: "pow2 (expo x + 1) / ?u = of_int (2 ^ 53)"
    by (subst pow2_split(2)) simp
  have "x / ?u \<le> pow2 (expo x + 1) / ?u"
    by (rule divide_right_mono) (use expo_upper [OF nz] a in simp_all)
  then have "x / ?u \<le> of_int (2 ^ 53)"
    by (simp only: hi)
  then have "round_even (x / ?u) \<le> round_even (of_int (2 ^ 53))"
    by (rule round_even_mono)
  then have b: "round_even (x / ?u) \<le> (2 ^ 53 :: int)"
    by (simp only: round_even_int)
  have "?u * of_int (round_even (x / ?u)) \<le> ?u * of_int (2 ^ 53)"
    using b by (intro mult_left_mono) (simp_all only: of_int_le_iff, simp)
  also have "\<dots> = pow2 (expo x + 1)" by (subst pow2_split(2)) simp
  finally show ?thesis by (simp only: rd_at [OF nz])
qed

lemma rd_lower:
  assumes "pow2 (expo x) \<le> x"
  shows "pow2 (expo x) \<le> rd x"
proof -
  let ?u = "pow2 (expo x - 52)"
  have "0 < x" using assms pow2_pos [of "expo x"] by linarith
  then have nz: "x \<noteq> 0" by simp
  have lo: "pow2 (expo x) / ?u = of_int (2 ^ 52)"
    by (subst pow2_split(1)) simp
  have "pow2 (expo x) / ?u \<le> x / ?u"
    by (rule divide_right_mono [OF assms]) simp
  then have "of_int (2 ^ 52) \<le> x / ?u"
    by (simp only: lo)
  then have "round_even (of_int (2 ^ 52)) \<le> round_even (x / ?u)"
    by (rule round_even_mono)
  then have a: "(2 ^ 52 :: int) \<le> round_even (x / ?u)"
    by (simp only: round_even_int)
  have "pow2 (expo x) = ?u * of_int (2 ^ 52)" by (subst pow2_split(1)) simp
  also have "\<dots> \<le> ?u * of_int (round_even (x / ?u))"
    using a by (intro mult_left_mono) (simp_all only: of_int_le_iff, simp)
  finally show ?thesis by (simp only: rd_at [OF nz])
qed

lemma rd_mono:
  assumes "0 \<le> x" and "x \<le> y"
  shows "rd x \<le> rd y"
proof (cases "x = 0")
  case True
  with assms show ?thesis by (simp add: rd_nonneg)
next
  case False
  with assms have x: "0 < x" "\<bar>x\<bar> = x" and y: "y \<noteq> 0" "\<bar>y\<bar> = y" by simp_all
  note bx = binade_bounds [OF False, unfolded x(2)]
  note by' = binade_bounds [OF y(1), unfolded y(2)]
  have le: "binade x \<le> binade y"
  proof (rule ccontr)
    assume "\<not> binade x \<le> binade y"
    then have "binade y + 1 \<le> binade x" by simp
    then have "pow2 (binade y + 1) \<le> pow2 (binade x)" by (rule pow2_mono)
    with bx(1) by'(2) assms(2) show False by linarith
  qed
  then have le': "expo x \<le> expo y" by (simp add: expo_def)
  show ?thesis
  proof (cases "expo x = expo y")
    case True
    let ?u = "pow2 (expo y - 52)"
    have "x / ?u \<le> y / ?u" by (rule divide_right_mono [OF assms(2)]) simp
    then have "round_even (x / ?u) \<le> round_even (y / ?u)" by (rule round_even_mono)
    then have "?u * of_int (round_even (x / ?u)) \<le> ?u * of_int (round_even (y / ?u))"
      by (intro mult_left_mono) simp_all
    with False y(1) True show ?thesis by (simp add: rd_def Let_def)
  next
    case False
    with le' have lt: "expo x + 1 \<le> expo y" by simp
    then have "expo y = binade y" by (simp add: expo_def max_def split: if_splits)
    with by'(1) have "pow2 (expo y) \<le> y" by simp
    then have "pow2 (expo y) \<le> rd y" by (rule rd_lower)
    moreover have "pow2 (expo x + 1) \<le> pow2 (expo y)" using lt by (rule pow2_mono)
    moreover have "rd x \<le> pow2 (expo x + 1)" using x(1) by (rule rd_upper)
    ultimately show ?thesis by linarith
  qed
qed

lemma rd_exact:
  assumes "\<bar>k\<bar> < 2 ^ 53" and "- 1074 \<le> j"
  shows "rd (of_int k * pow2 j) = of_int k * pow2 j"
proof (cases "k = 0")
  case True
  then show ?thesis by simp
next
  case False
  let ?x = "of_int k * pow2 j"
  have nz: "?x \<noteq> 0" using False pow2_pos [of j] by simp
  let ?b = "binade ?x"
  let ?e = "expo ?x"
  have "pow2 ?b \<le> \<bar>?x\<bar>" using binade_bounds(1) [OF nz] .
  also have "\<bar>?x\<bar> = of_int \<bar>k\<bar> * pow2 j" by (simp add: abs_mult)
  also have "\<dots> < of_int (2 ^ 53) * pow2 j"
    using assms(1) by (intro mult_strict_right_mono) (simp_all only: of_int_less_iff pow2_pos)
  also have "\<dots> = pow2 (53 + j)" using pow2_add [of 53 j] by (simp add: pow2_def [of 53])
  finally have "pow2 ?b < pow2 (53 + j)" .
  then have "?b < 53 + j"
    using pow2_mono [of "53 + j" ?b] by (cases "?b < 53 + j") simp_all
  with assms(2) have d: "0 \<le> j - (?e - 52)" by (simp add: expo_def)
  have "pow2 j = pow2 (?e - 52) * pow2 (j - (?e - 52))"
    using pow2_add [of "?e - 52" "j - (?e - 52)"] by simp
  also have "pow2 (j - (?e - 52)) = of_int (2 ^ nat (j - (?e - 52)))"
    using d by (rule pow2_nat)
  finally have j: "pow2 j = pow2 (?e - 52) * of_int (2 ^ nat (j - (?e - 52)))" .
  have "?x / pow2 (?e - 52) = of_int (k * 2 ^ nat (j - (?e - 52)))"
    by (subst j) simp
  then have "round_even (?x / pow2 (?e - 52)) = k * 2 ^ nat (j - (?e - 52))"
    by (simp only: round_even_int)
  then have "rd ?x = pow2 (?e - 52) * of_int (k * 2 ^ nat (j - (?e - 52)))"
    by (simp add: rd_at [OF nz])
  also have "\<dots> = ?x" by (subst (2) j) simp
  finally show ?thesis .
qed

lemma rd_int: "\<bar>k\<bar> < 2 ^ 53 \<Longrightarrow> rd (of_int k) = of_int k"
  using rd_exact [of k 0] by (simp add: pow2_def)

lemma rd_numeral [simp]: "numeral k < (2 ^ 53 :: int) \<Longrightarrow> rd (numeral k) = numeral k"
  using rd_int [of "numeral k"] by simp

lemma rd_1 [simp]: "rd 1 = 1"
  using rd_int [of 1] by simp

lemma double_grid:
  assumes "is_double u" and "pow2 e \<le> u" and "u < pow2 (e + 1)" and "- 1022 \<le> e"
  shows "\<exists>k :: int. u = pow2 (e - 52) * of_int k"
proof -
  have "0 < u" using assms(2) pow2_pos [of e] by linarith
  then have "rd u = pow2 (e - 52) * of_int (round_even (u / pow2 (e - 52)))"
    using assms(2,3,4) by (intro rd_eval) simp_all
  with assms(1) show ?thesis unfolding is_double_def by metis
qed

lemma double_below_one:
  assumes "is_double u" and "u < 1"
  shows "u \<le> 1 - 1 / 2 ^ 53" and "u \<noteq> 1 - 1 / 2 ^ 53 \<Longrightarrow> u \<le> 1 - 1 / 2 ^ 52"
proof -
  have *: "u \<le> 1 - 1 / 2 ^ 53 \<and> (u \<noteq> 1 - 1 / 2 ^ 53 \<longrightarrow> u \<le> 1 - 1 / 2 ^ 52)"
  proof (cases "u < 1 / 2")
    case True
    then show ?thesis by simp
  next
    case False
    then have "pow2 (- 1) \<le> u" "u < pow2 (- 1 + 1)"
      using assms(2) by (simp_all add: pow2_def)
    from double_grid [OF assms(1) this] obtain k :: int
      where k: "u = pow2 (- 1 - 52) * of_int k" by auto
    have p: "pow2 (- 53) = 1 / 2 ^ 53" by (simp add: pow2_def)
    from k have u: "u = of_int k / 2 ^ 53" by (simp add: p)
    with assms(2) have "of_int k < (2 ^ 53 :: real)" by (simp add: field_simps)
    then have "of_int k < (of_int (2 ^ 53) :: real)" by simp
    then have lt: "k < 2 ^ 53" by (simp only: of_int_less_iff)
    then have "k \<le> 2 ^ 53 - 1" by simp
    then have "(of_int k :: real) \<le> of_int (2 ^ 53 - 1)" by (simp only: of_int_le_iff)
    then have a: "u \<le> 1 - 1 / 2 ^ 53" by (simp add: u field_simps)
    have b: "u \<le> 1 - 1 / 2 ^ 52" if "u \<noteq> 1 - 1 / 2 ^ 53"
    proof -
      from that have "k \<noteq> 2 ^ 53 - 1" by (auto simp add: u field_simps)
      with lt have "k \<le> 2 ^ 53 - 2" by simp
      then have "(of_int k :: real) \<le> of_int (2 ^ 53 - 2)" by (simp only: of_int_le_iff)
      then show ?thesis by (simp add: u field_simps)
    qed
    from a b show ?thesis by blast
  qed
  from * show "u \<le> 1 - 1 / 2 ^ 53" by blast
  from * show "u \<noteq> 1 - 1 / 2 ^ 53 \<Longrightarrow> u \<le> 1 - 1 / 2 ^ 52" by blast
qed

lemma rd_top_4: "rd (top_draw * 4) = 4 - 1 / 2 ^ 51"
  using rd_eval [of 1 "top_draw * 4"] by (simp add: top_draw_def pow2_def round_even_def)

lemma rd_7_tie: "rd (4 - 1 / 2 ^ 51 + 3) = 7"
  using rd_eval [of 2 "4 - 1 / 2 ^ 51 + 3"] by (simp add: pow2_def round_even_def)

lemma photos_count_at_top_draw: "generateRandomNumber 3 6 top_draw = 7"
  by (simp add: generateRandomNumber_def rd_top_4) (simp add: rd_7_tie [simplified])

lemma scaled_draw_bounds:
  assumes "0 \<le> u" and "u \<le> U" and "0 \<le> n" and "0 \<le> mn" and "rd mn = mn"
  shows "mn \<le> rd (rd (u * n) + mn)" and "rd (rd (u * n) + mn) \<le> rd (rd (U * n) + mn)"
proof -
  have un: "0 \<le> u * n" using assms(1,3) by simp
  then have r: "0 \<le> rd (u * n)" by (rule rd_nonneg)
  then have "mn \<le> rd (u * n) + mn" by simp
  then have "rd mn \<le> rd (rd (u * n) + mn)" by (rule rd_mono [OF assms(4)])
  then show "mn \<le> rd (rd (u * n) + mn)" by (simp only: assms(5))
  have "u * n \<le> U * n" using assms(2,3) by (rule mult_right_mono)
  then have "rd (u * n) \<le> rd (U * n)" by (rule rd_mono [OF un])
  then have "rd (u * n) + mn \<le> rd (U * n) + mn" by simp
  moreover have "0 \<le> rd (u * n) + mn" using r assms(4) by simp
  ultimately show "rd (rd (u * n) + mn) \<le> rd (rd (U * n) + mn)" by (rule rd_mono [rotated])
qed

lemma rd_top_5: "rd (top_draw * 5) = 5 - 1 / 2 ^ 50"
  using rd_eval [of 2 "top_draw * 5"] by (simp add: top_draw_def pow2_def round_even_def)

lemma rd_top_10: "rd (top_draw * 10) = 10 - 1 / 2 ^ 49"
  using rd_eval [of 3 "top_draw * 10"] by (simp add: top_draw_def pow2_def round_even_def)

lemma rd_top_951: "rd (top_draw * 951) = 951 - 1 / 2 ^ 43"
  using rd_eval [of 9 "top_draw * 951"] by (simp add: top_draw_def pow2_def round_even_def)

lemma rd_top_2: "rd (top_draw * 2) = 2 - 1 / 2 ^ 52"
  using rd_eval [of 0 "top_draw * 2"] by (simp add: top_draw_def pow2_def round_even_def)

lemma rd_below_6: "rd (5 - 1 / 2 ^ 50 + 1) = 6 - 1 / 2 ^ 50"
  using rd_eval [of 2 "5 - 1 / 2 ^ 50 + 1"] by (simp add: pow2_def round_even_def)

lemma rd_below_7: "rd (5 - 1 / 2 ^ 50 + 2) = 7 - 1 / 2 ^ 50"
  using rd_eval [of 2 "5 - 1 / 2 ^ 50 + 2"] by (simp add: pow2_def round_even_def)

lemma rd_below_11: "rd (10 - 1 / 2 ^ 49 + 1) = 11 - 1 / 2 ^ 49"
  using rd_eval [of 3 "10 - 1 / 2 ^ 49 + 1"] by (simp add: pow2_def round_even_def)

lemma rd_below_1001: "rd (951 - 1 / 2 ^ 43 + 50) = 1001 - 1 / 2 ^ 43"
  using rd_eval [of 9 "951 - 1 / 2 ^ 43 + 50"] by (simp add: pow2_def round_even_def)

lemma rd_to_5: "rd (2 - 1 / 2 ^ 52 + 3) = 5"
  using rd_eval [of 2 "2 - 1 / 2 ^ 52 + 3"] by (simp add: pow2_def round_even_def)

lemma rd_next_4: "rd ((1 - 1 / 2 ^ 52) * 4) = 4 - 1 / 2 ^ 50"
  using rd_eval [of 1 "(1 - 1 / 2 ^ 52) * 4"] by (simp add: pow2_def round_even_def)

lemma rd_next_7: "rd (4 - 1 / 2 ^ 50 + 3) = 7 - 1 / 2 ^ 50"
  using rd_eval [of 2 "4 - 1 / 2 ^ 50 + 3"] by (simp add: pow2_def round_even_def)

lemma floor_range:
  assumes "0 \<le> u" and "u \<le> U" and "0 \<le> n" and "0 \<le> a" and "rd (of_int a) = of_int a"
    and "rd (rd (U * n) + of_int a) < of_int b + 1"
  shows "a \<le> \<lfloor>rd (rd (u * n) + of_int a)\<rfloor>" and "\<lfloor>rd (rd (u * n) + of_int a)\<rfloor> \<le> b"
proof -
  have "(0::real) \<le> of_int a" using assms(4) by simp
  note s = scaled_draw_bounds [OF assms(1-3) this assms(5)]
  from s(1) show "a \<le> \<lfloor>rd (rd (u * n) + of_int a)\<rfloor>"
    by (simp only: le_floor_iff)
  from s(2) assms(6) have "rd (rd (u * n) + of_int a) < of_int (b + 1)" by simp
  then have "\<lfloor>rd (rd (u * n) + of_int a)\<rfloor> < b + 1" by (simp only: floor_less_iff)
  then show "\<lfloor>rd (rd (u * n) + of_int a)\<rfloor> \<le> b" by simp
qed

lemma rooms_bounds:
  assumes "0 \<le> u" and "u \<le> top_draw"
  shows "1 \<le> generateRandomNumber 1 5 u" and "generateRandomNumber 1 5 u \<le> 5"
proof -
  have g: "generateRandomNumber 1 5 u = \<lfloor>rd (rd (u * 5) + of_int 1)\<rfloor>"
    by (simp add: generateRandomNumber_def)
  have "rd (rd (top_draw * 5) + 1) < 5 + 1"
    by (simp only: rd_top_5 rd_below_6) simp
  then have t: "rd (rd (top_draw * 5) + of_int 1) < of_int 5 + 1"
    by simp
  have n: "(0::real) \<le> 5" and a: "(0::int) \<le> 1" and r: "rd (of_int 1) = of_int 1"
    by simp_all
  note b = floor_range [OF assms n a r t]
  from b(1) show "1 \<le> generateRandomNumber 1 5 u" by (simp only: g)
  from b(2) show "generateRandomNumber 1 5 u \<le> 5" by (simp only: g)
qed

lemma guests_bounds:
  assumes "0 \<le> u" and "u \<le> top_draw"
  shows "1 \<le> generateRandomNumber 1 10 u" and "generateRandomNumber 1 10 u \<le> 10"
proof -
  have g: "generateRandomNumber 1 10 u = \<lfloor>rd (rd (u * 10) + of_int 1)\<rfloor>"
    by (simp add: generateRandomNumber_def)
  have "rd (rd (top_draw * 10) + 1) < 10 + 1"
    by (simp only: rd_top_10 rd_below_11) simp
  then have t: "rd (rd (top_draw * 10) + of_int 1) < of_int 10 + 1"
    by simp
  have n: "(0::real) \<le> 10" and a: "(0::int) \<le> 1" and r: "rd (of_int 1) = of_int 1"
    by simp_all
  note b = floor_range [OF assms n a r t]
  from b(1) show "1 \<le> generateRandomNumber 1 10 u" by (simp only: g)
  from b(2) show "generateRandomNumber 1 10 u \<le> 10" by (simp only: g)
qed

lemma price_bounds:
  assumes "0 \<le> u" and "u \<le> top_draw"
  shows "50 \<le> generateRandomNumber 50 1000 u" and "generateRandomNumber 50 1000 u \<le> 1000"
proof -
  have g: "generateRandomNumber 50 1000 u = \<lfloor>rd (rd (u * 951) + of_int 50)\<rfloor>"
    by (simp add: generateRandomNumber_def)
  have "rd (rd (top_draw * 951) + 50) < 1000 + 1"
    by (simp only: rd_top_951 rd_below_1001) simp
  then have t: "rd (rd (top_draw * 951) + of_int 50) < of_int 1000 + 1"
    by simp
  have n: "(0::real) \<le> 951" and a: "(0::int) \<le> 50" and r: "rd (of_int 50) = of_int 50"
    by simp_all
  note b = floor_range [OF assms n a r t]
  from b(1) show "50 \<le> generateRandomNumber 50 1000 u" by (simp only: g)
  from b(2) show "generateRandomNumber 50 1000 u \<le> 1000" by (simp only: g)
qed

lemma features_count_bounds:
  assumes "0 \<le> u" and "u \<le> top_draw"
  shows "2 \<le> generateRandomNumber 2 6 u" and "generateRandomNumber 2 6 u \<le> 6"
proof -
  have g: "generateRandomNumber 2 6 u = \<lfloor>rd (rd (u * 5) + of_int 2)\<rfloor>"
    by (simp add: generateRandomNumber_def)
  have "rd (rd (top_draw * 5) + 2) < 6 + 1"
    by (simp only: rd_top_5 rd_below_7) simp
  then have t: "rd (rd (top_draw * 5) + of_int 2) < of_int 6 + 1"
    by simp
  have n: "(0::real) \<le> 5" and a: "(0::int) \<le> 2" and r: "rd (of_int 2) = of_int 2"
    by simp_all
  note b = floor_range [OF assms n a r t]
  from b(1) show "2 \<le> generateRandomNumber 2 6 u" by (simp only: g)
  from b(2) show "generateRandomNumber 2 6 u \<le> 6" by (simp only: g)
qed

lemma photos_count_bounds:
  assumes "0 \<le> u" and "u \<le> 1 - 1 / 2 ^ 52"
  shows "3 \<le> generateRandomNumber 3 6 u" and "generateRandomNumber 3 6 u \<le> 6"
proof -
  have g: "generateRandomNumber 3 6 u = \<lfloor>rd (rd (u * 4) + of_int 3)\<rfloor>"
    by (simp add: generateRandomNumber_def)
  have "rd (rd ((1 - 1 / 2 ^ 52) * 4) + 3) < 6 + 1"
    by (simp only: rd_next_4 rd_next_7) simp
  then have t: "rd (rd ((1 - 1 / 2 ^ 52) * 4) + of_int 3) < of_int 6 + 1"
    by simp
  have n: "(0::real) \<le> 4" and a: "(0::int) \<le> 3" and r: "rd (of_int 3) = of_int 3"
    by simp_all
  note b = floor_range [OF assms n a r t]
  from b(1) show "3 \<le> generateRandomNumber 3 6 u" by (simp only: g)
  from b(2) show "generateRandomNumber 3 6 u \<le> 6" by (simp only: g)
qed

lemma rating_bounds:
  assumes "0 \<le> u" and "u \<le> top_draw"
  shows "3 \<le> rd (rd (u * 2) + 3)" and "rd (rd (u * 2) + 3) \<le> 5"
proof -
  have t: "rd (rd (top_draw * 2) + 3) = 5"
    by (simp only: rd_top_2 rd_to_5)
  note s = scaled_draw_bounds [OF assms, of 2 3, unfolded t]
  from s(1) show "3 \<le> rd (rd (u * 2) + 3)" by simp
  from s(2) show "rd (rd (u * 2) + 3) \<le> 5" by simp
qed

lemma is_double_0: "is_double 0"
  by (simp add: is_double_def)

lemma is_double_top_draw: "is_double top_draw"
proof -
  have "rd (of_int (2 ^ 53 - 1) * pow2 (- 53)) = of_int (2 ^ 53 - 1) * pow2 (- 53)"
    by (rule rd_exact) simp_all
  moreover have "of_int (2 ^ 53 - 1) * pow2 (- 53) = top_draw"
    by (simp add: top_draw_def pow2_def)
  ultimately show ?thesis by (simp only: is_double_def)
qed

lemma round_even_minus: "round_even (- q) = - round_even q"
proof (cases "q = of_int \<lfloor>q\<rfloor>")
  case True
  then obtain k :: int where "q = of_int k" by blast
  then have "- q = of_int (- k)" by simp
  then show ?thesis using \<open>q = of_int k\<close> by (simp only: round_even_int)
next
  case False
  then have f: "\<lfloor>- q\<rfloor> = - \<lfloor>q\<rfloor> - 1"
    by (simp add: floor_minus ceiling_altdef)
  have "of_int \<lfloor>q\<rfloor> < q" using False by linarith
  then show ?thesis
    by (auto simp add: round_even_def Let_def f)
qed

lemma round_even_near: "\<bar>of_int (round_even q) - q\<bar> \<le> 1 / 2"
  by (auto simp add: round_even_def Let_def)

lemma binade_minus [simp]: "binade (- x) = binade x"
  by (simp add: binade_def)

lemma expo_minus [simp]: "expo (- x) = expo x"
  by (simp add: expo_def)

lemma rd_minus: "rd (- x) = - rd x"
  by (simp add: rd_def Let_def round_even_minus)

lemma rd_abs: "\<bar>rd x\<bar> = rd \<bar>x\<bar>"
proof (cases "0 \<le> x")
  case True
  then show ?thesis by (simp add: rd_nonneg)
next
  case False
  then have "0 \<le> - x" by simp
  then have "0 \<le> rd (- x)" by (rule rd_nonneg)
  with False show ?thesis by (simp add: rd_minus)
qed

lemma rd_abs_le:
  assumes "\<bar>x\<bar> \<le> y"
  shows "\<bar>rd x\<bar> \<le> rd y"
  unfolding rd_abs using assms by (intro rd_mono) simp_all

lemma rd_idem: "rd (rd x) = rd x"
proof (cases "x = 0")
  case True
  then show ?thesis by simp
next
  case False
  define k where "k = round_even (x / pow2 (expo x - 52))"
  have r: "rd x = of_int k * pow2 (expo x - 52)"
    by (simp add: rd_at [OF False] k_def)
  have "\<bar>x\<bar> < pow2 (expo x + 1)" using False by (rule expo_upper)
  then have "\<bar>x\<bar> / pow2 (expo x - 52) < pow2 (expo x + 1) / pow2 (expo x - 52)"
    by (intro divide_strict_right_mono) simp_all
  also have "\<dots> = 2 ^ 53" by (subst pow2_split(2)) simp
  finally have "\<bar>x\<bar> / pow2 (expo x - 52) < 2 ^ 53" .
  moreover have "\<bar>x / pow2 (expo x - 52)\<bar> = \<bar>x\<bar> / pow2 (expo x - 52)"
    by (simp add: abs_divide)
  ultimately have a: "\<bar>x / pow2 (expo x - 52)\<bar> < 2 ^ 53" by (simp only:)
  have "\<bar>k\<bar> \<le> 2 ^ 53"
  proof -
    from a have "x / pow2 (expo x - 52) \<le> 2 ^ 53" "- (2 ^ 53) \<le> x / pow2 (expo x - 52)"
      by linarith+
    then have b: "x / pow2 (expo x - 52) \<le> of_int (2 ^ 53)"
      and c: "of_int (- (2 ^ 53)) \<le> x / pow2 (expo x - 52)"
      by simp_all
    have "round_even (x / pow2 (expo x - 52)) \<le> round_even (of_int (2 ^ 53))"
      using b by (rule round_even_mono)
    moreover have "round_even (of_int (- (2 ^ 53))) \<le> round_even (x / pow2 (expo x - 52))"
      using c by (rule round_even_mono)
    ultimately show ?thesis unfolding k_def round_even_int by simp
  qed
  then consider "\<bar>k\<bar> < 2 ^ 53" | "k = 2 ^ 53" | "k = - (2 ^ 53)" by linarith
  then show ?thesis
  proof cases
    case 1
    have "- 1074 \<le> expo x - 52" by (simp add: expo_def)
    with 1 show ?thesis unfolding r by (rule rd_exact)
  next
    case 2
    have "rd x = of_int 1 * pow2 (expo x + 1)"
      unfolding r 2 by (subst pow2_split(2)) simp
    moreover have "rd (of_int 1 * pow2 (expo x + 1)) = of_int 1 * pow2 (expo x + 1)"
      by (rule rd_exact) (simp_all add: expo_def)
    ultimately show ?thesis by simp
  next
    case 3
    have "rd x = of_int (- 1) * pow2 (expo x + 1)"
      unfolding r 3 by (subst pow2_split(2)) simp
    moreover have "rd (of_int (- 1) * pow2 (expo x + 1)) = of_int (- 1) * pow2 (expo x + 1)"
      by (rule rd_exact) (simp_all add: expo_def)
    ultimately show ?thesis by simp
  qed
qed

lemma rd_error: "\<bar>rd x - x\<bar> \<le> \<bar>x\<bar> / 2 ^ 53 + 1 / 2 ^ 1075"
proof (cases "x = 0")
  case True
  then show ?thesis by simp
next
  case False
  let ?u = "pow2 (expo x - 52)"
  let ?q = "x / ?u"
  have "rd x - x = ?u * (of_int (round_even ?q) - ?q)"
    by (simp add: rd_at [OF False] algebra_simps)
  then have "\<bar>rd x - x\<bar> = ?u * \<bar>of_int (round_even ?q) - ?q\<bar>"
    by (simp add: abs_mult)
  also have "\<dots> \<le> ?u * (1 / 2)"
    by (intro mult_left_mono round_even_near) simp
  finally have h: "\<bar>rd x - x\<bar> \<le> ?u / 2" by simp
  show ?thesis
  proof (cases "expo x = binade x")
    case True
    have "pow2 (expo x) \<le> \<bar>x\<bar>" unfolding True using False by (rule binade_bounds(1))
    then have "?u * 2 ^ 52 \<le> \<bar>x\<bar>" by (subst (asm) pow2_split(1))
    then have "?u / 2 \<le> \<bar>x\<bar> / 2 ^ 53" by (simp add: field_simps)
    with h have hh: "\<bar>rd x - x\<bar> \<le> \<bar>x\<bar> / 2 ^ 53" by (rule order_trans)
    show ?thesis by (rule add_increasing2 [OF _ hh]) simp
  next
    case False
    then have "expo x = - 1022" by (simp add: expo_def max_def split: if_splits)
    then have "?u = pow2 (- 1074)" by simp
    also have "\<dots> = 1 / 2 ^ 1074" by (simp add: pow2_def)
    finally have "?u / 2 = 1 / 2 ^ 1075" by simp
    with h have hh: "\<bar>rd x - x\<bar> \<le> 1 / 2 ^ 1075" by (simp only:)
    show ?thesis by (rule add_increasing [OF _ hh]) simp
  qed
qed

lemma round_even_unique:
  assumes "\<bar>q - of_int k\<bar> < 1 / 2"
  shows "round_even q = k"
proof -
  have "\<lfloor>q\<rfloor> = k \<or> \<lfloor>q\<rfloor> = k - 1" using assms by linarith
  then show ?thesis
  proof
    assume f: "\<lfloor>q\<rfloor> = k"
    with assms have "q - of_int k < 1 / 2" by linarith
    with f show ?thesis by (simp add: round_even_def Let_def)
  next
    assume f: "\<lfloor>q\<rfloor> = k - 1"
    from assms have "of_int k - q < 1 / 2" by linarith
    then have "1 / 2 < q - (of_int k - 1)" by linarith
    then have "1 / 2 < q - of_int (k - 1)" by simp
    with f show ?thesis by (simp add: round_even_def Let_def)
  qed
qed

lemma rd_half [simp]: "rd (1 / 2) = 1 / 2"
  using rd_eval [of "- 1" "1 / 2"] by (simp add: pow2_def round_even_def)

lemma rd_minus_numeral [simp]: "numeral k < (2 ^ 53 :: int) \<Longrightarrow> rd (- numeral k) = - numeral k"
  by (simp add: rd_minus)

lemma rd_minus_1 [simp]: "rd (- 1) = - 1"
  by (simp add: rd_minus)

section \<open>Random numbers, ratings and locations\<close>

lemma slice0_length: "0 \<le> k \<Longrightarrow> length (slice0 xs k) = min (nat k) (length xs)"
  by (simp add: slice0_def)

lemma getRandomItems_length:
  assumes "0 \<le> k" and "length (shuffle items) = length items"
  shows "length (getRandomItems items k shuffle) = min (nat k) (length items)"
  using assms by (simp add: getRandomItems_def slice0_length)

lemma digits_one: "n < 10 \<Longrightarrow> digits n = [48 + n]"
  by (simp add: digits.simps)

lemma rating_text:
  assumes "3 \<le> x" and "x \<le> 5"
  shows "\<exists>n. 30 \<le> n \<and> n \<le> 50 \<and> toFixed n2s 1 x = [48 + n div 10, 46, 48 + n mod 10]"
proof -
  define y where "y = \<lfloor>x * 10 + 1 / 2\<rfloor>"
  define n where "n = nat y"
  note x = assms
  have "30 \<le> y"
    unfolding y_def using x by (simp add: le_floor_iff)
  moreover have "y < 51"
    unfolding y_def using x by (simp add: floor_less_iff)
  ultimately have n: "30 \<le> n" "n \<le> 50"
    by (simp_all add: n_def)
  then have d: "n div 10 < 10" by simp
  have a: "\<bar>x\<bar> = x" "\<not> x < 0" "\<not> 10 ^ 21 \<le> x" using x by simp_all
  have "toFixed n2s 1 x = [48 + n div 10, 46, 48 + n mod 10]"
    using d x by (simp add: toFixed_def Let_def a digits_one n_def [symmetric] y_def [symmetric])
  with n show ?thesis by blast
qed

lemma Math_sqrt_unit:
  assumes "0 \<le> x" and "x < 1"
  shows "0 \<le> Math_sqrt x" and "Math_sqrt x \<le> 1"
proof -
  show "0 \<le> Math_sqrt x" unfolding Math_sqrt_def using assms(1) by (intro rd_nonneg) simp
  have "sqrt x \<le> 1" using assms(2) by simp
  then have "rd (sqrt x) \<le> rd 1" using assms(1) by (intro rd_mono) simp_all
  then show "Math_sqrt x \<le> 1" by (simp add: Math_sqrt_def)
qed

lemma rd_unit_error:
  assumes "\<bar>x\<bar> \<le> 1"
  shows "\<bar>rd x\<bar> \<le> 1" and "\<bar>rd x - x\<bar> \<le> 1 / 2 ^ 53 + 1 / 2 ^ 1075"
proof -
  have "\<bar>rd x\<bar> \<le> rd 1" using assms by (rule rd_abs_le)
  then show "\<bar>rd x\<bar> \<le> 1" by simp
  have "\<bar>x\<bar> / 2 ^ 53 \<le> 1 / 2 ^ 53" using assms by (simp add: divide_right_mono)
  with rd_error [of x] show "\<bar>rd x - x\<bar> \<le> 1 / 2 ^ 53 + 1 / 2 ^ 1075" by linarith
qed

lemma scaled_error:
  assumes "0 \<le> r" and "rd r = r" and "\<bar>c\<bar> \<le> 1"
  shows "\<bar>rd (r * c)\<bar> \<le> r" and "\<bar>rd (r * c) - r * c\<bar> \<le> r / 2 ^ 53 + 1 / 2 ^ 1075"
proof -
  have a: "\<bar>r * c\<bar> \<le> r"
    using assms(1,3) by (simp add: abs_mult mult_left_le)
  then have "\<bar>rd (r * c)\<bar> \<le> rd r" by (rule rd_abs_le)
  then show "\<bar>rd (r * c)\<bar> \<le> r" by (simp only: assms(2))
  have "\<bar>r * c\<bar> / 2 ^ 53 \<le> r / 2 ^ 53" using a by (simp add: divide_right_mono)
  with rd_error [of "r * c"] show "\<bar>rd (r * c) - r * c\<bar> \<le> r / 2 ^ 53 + 1 / 2 ^ 1075"
    by linarith
qed

lemma coordinate_error:
  fixes u h :: real
  assumes r: "0 \<le> r" "rd r = r"
    and c: "\<bar>C\<bar> \<le> 1" "\<bar>C - c\<bar> \<le> u + h"
    and u: "u = 1 / 2 ^ 53" and h: "h = 1 / 2 ^ 1075"
  shows "\<bar>rd (x + rd (r * C)) - x - r * c\<bar> \<le> r * (3 * u + h) + \<bar>x\<bar> * u + 2 * h"
proof -
  let ?d = "rd (r * C)"
  note s = scaled_error [OF r c(1)]
  have g: "\<bar>?d - r * C\<bar> \<le> r * u + h" using s(2) by (simp add: u h)
  have "\<bar>rd (x + ?d) - (x + ?d)\<bar> \<le> \<bar>x + ?d\<bar> * u + h"
    using rd_error [of "x + ?d"] by (simp add: u h)
  moreover have "\<bar>x + ?d\<bar> * u \<le> (\<bar>x\<bar> + r) * u"
    using s(1) by (intro mult_right_mono) (simp_all add: u)
  ultimately have f: "\<bar>rd (x + ?d) - (x + ?d)\<bar> \<le> (\<bar>x\<bar> + r) * u + h" by linarith
  have "\<bar>r * (C - c)\<bar> \<le> r * (u + h)"
    using r(1) c(2) by (simp add: abs_mult mult_left_mono)
  then have e: "\<bar>r * C - r * c\<bar> \<le> r * (u + h)" by (simp add: algebra_simps)
  have "rd (x + ?d) - x - r * c = (rd (x + ?d) - (x + ?d)) + (?d - r * C) + (r * C - r * c)"
    by simp
  then have "\<bar>rd (x + ?d) - x - r * c\<bar>
             \<le> \<bar>rd (x + ?d) - (x + ?d)\<bar> + \<bar>?d - r * C\<bar> + \<bar>r * C - r * c\<bar>"
    by linarith
  also have "\<dots> \<le> ((\<bar>x\<bar> + r) * u + h) + (r * u + h) + r * (u + h)"
    using f g e by linarith
  also have "\<dots> = r * (3 * u + h) + \<bar>x\<bar> * u + 2 * h" by (simp add: algebra_simps)
  finally show ?thesis .
qed

lemma norm_with_errors:
  fixes r :: real
  assumes "0 \<le> r" and "\<bar>a - r * cos t\<bar> \<le> e1" and "\<bar>b - r * sin t\<bar> \<le> e2"
  shows "sqrt (a\<^sup>2 + b\<^sup>2) \<le> r + e1 + e2"
proof -
  have "sqrt (a\<^sup>2 + b\<^sup>2) = sqrt ((r * cos t + (a - r * cos t))\<^sup>2 + (r * sin t + (b - r * sin t))\<^sup>2)"
    by simp
  also have "\<dots> \<le> sqrt ((r * cos t)\<^sup>2 + (r * sin t)\<^sup>2) + sqrt ((a - r * cos t)\<^sup>2 + (b - r * sin t)\<^sup>2)"
    by (rule real_sqrt_sum_squares_triangle_ineq)
  also have "(r * cos t)\<^sup>2 + (r * sin t)\<^sup>2 = r\<^sup>2 * ((cos t)\<^sup>2 + (sin t)\<^sup>2)"
    by (simp only: power_mult_distrib distrib_left)
  also have "\<dots> = r\<^sup>2" by simp
  also have "sqrt (r\<^sup>2) = r" using assms(1) by simp
  also have "sqrt ((a - r * cos t)\<^sup>2 + (b - r * sin t)\<^sup>2) \<le> \<bar>a - r * cos t\<bar> + \<bar>b - r * sin t\<bar>"
    by (rule sqrt_sum_squares_le_sum_abs)
  finally show ?thesis using assms(2,3) by linarith
qed

lemma location_parts:
  assumes "generateRandomLocation (Some c) ua ur = Inr loc"
  shows "latitude loc
         = rd (latitude c
               + rd (rd (Math_sqrt ur * rd (radius c / 111))
                     * Math_cos (rd (rd (ua * 2) * Math_PI))))"
    and "longitude loc
         = rd (longitude c
               + rd (rd (Math_sqrt ur * rd (radius c / 111))
                     * Math_sin (rd (rd (ua * 2) * Math_PI))))"
  using assms by (auto simp add: generateRandomLocation_def Let_def)

lemma rounding_constants:
  fixes u h :: real
  assumes "u = 1 / 2 ^ 53" and "h = 1 / 2 ^ 1075"
  shows "(1 + u + h) * (1 + 6 * u + 2 * h) \<le> 1 + 1 / 2 ^ 50"
    and "h * (1 + 6 * u + 2 * h) + 4 * h \<le> 1 / 2 ^ 1072"
    and "0 \<le> u" and "0 \<le> h"
  by (simp_all add: assms)

text \<open>
  Claim C7, amended. For a coordinate entry with a radius that is not negative, whose
  numbers are at most \<open>2^1023\<close> in size so that no operation overflows, and a radius draw
  in \<open>[0, 1)\<close>, whatever the angle, the generated location is within \<open>radius / 111\<close>
  degrees of the centre up to the rounding of the operations: the Euclidean norm of the
  offset is at most \<open>radius / 111 * (1 + 2^-50) + (|latitude| + |longitude|) * 2^-53 +
  2^-1072\<close>.
\<close>

theorem location_within_radius:
  assumes "0 \<le> radius c" and "0 \<le> ur" and "ur < 1"
    and "generateRandomLocation (Some c) ua ur = Inr loc"
    and "radius c \<le> 2 ^ 1023" and "\<bar>latitude c\<bar> \<le> 2 ^ 1023" and "\<bar>longitude c\<bar> \<le> 2 ^ 1023"
  shows "sqrt ((latitude loc - latitude c)\<^sup>2 + (longitude loc - longitude c)\<^sup>2)
         \<le> radius c / 111 * (1 + 1 / 2 ^ 50)
            + (\<bar>latitude c\<bar> + \<bar>longitude c\<bar>) / 2 ^ 53 + 1 / 2 ^ 1072"
proof -
  define u :: real where "u = 1 / 2 ^ 53"
  define h :: real where "h = 1 / 2 ^ 1075"
  note k = rounding_constants [OF u_def h_def]
  define \<rho> where "\<rho> = radius c / 111"
  define R where "R = rd \<rho>"
  define r where "r = rd (Math_sqrt ur * R)"
  define t where "t = rd (rd (ua * 2) * Math_PI)"
  have \<rho>: "0 \<le> \<rho>" using assms(1) by (simp add: \<rho>_def)
  have R0: "0 \<le> R" unfolding R_def using \<rho> by (rule rd_nonneg)
  have "\<bar>R - \<rho>\<bar> \<le> \<rho> * u + h"
    using rd_error [of \<rho>] \<rho> by (simp add: R_def u_def h_def)
  then have R1: "R \<le> \<rho> * (1 + u) + h" by (simp add: algebra_simps)
  note s = Math_sqrt_unit [OF assms(2,3)]
  have r0: "0 \<le> r" unfolding r_def using s(1) R0 by (intro rd_nonneg) simp
  have "Math_sqrt ur * R \<le> 1 * R" using s(2) R0 by (rule mult_right_mono)
  then have "Math_sqrt ur * R \<le> R" by simp
  moreover have "0 \<le> Math_sqrt ur * R" using s(1) R0 by simp
  ultimately have "rd (Math_sqrt ur * R) \<le> rd R" by (intro rd_mono)
  then have r1: "r \<le> R" by (simp add: r_def R_def rd_idem)
  have rr: "rd r = r" by (simp add: r_def rd_idem)
  have c: "\<bar>Math_cos t\<bar> \<le> 1" "\<bar>Math_cos t - cos t\<bar> \<le> u + h"
    using rd_unit_error [of "cos t"] by (simp_all add: Math_cos_def u_def h_def)
  have sn: "\<bar>Math_sin t\<bar> \<le> 1" "\<bar>Math_sin t - sin t\<bar> \<le> u + h"
    using rd_unit_error [of "sin t"] by (simp_all add: Math_sin_def u_def h_def)
  note p = location_parts [OF assms(4), folded \<rho>_def, folded R_def, folded r_def t_def]
  have e1: "\<bar>latitude loc - latitude c - r * cos t\<bar> \<le> r * (3 * u + h) + \<bar>latitude c\<bar> * u + 2 * h"
    unfolding p(1) using r0 rr c u_def h_def by (rule coordinate_error)
  have e2: "\<bar>longitude loc - longitude c - r * sin t\<bar> \<le> r * (3 * u + h) + \<bar>longitude c\<bar> * u + 2 * h"
    unfolding p(2) using r0 rr sn u_def h_def by (rule coordinate_error)
  have "sqrt ((latitude loc - latitude c)\<^sup>2 + (longitude loc - longitude c)\<^sup>2)
        \<le> r + (r * (3 * u + h) + \<bar>latitude c\<bar> * u + 2 * h)
            + (r * (3 * u + h) + \<bar>longitude c\<bar> * u + 2 * h)"
    using r0 e1 e2 by (rule norm_with_errors)
  also have "\<dots> = r * (1 + 6 * u + 2 * h) + (\<bar>latitude c\<bar> + \<bar>longitude c\<bar>) * u + 4 * h"
    by (simp add: algebra_simps)
  also have "r * (1 + 6 * u + 2 * h) \<le> (\<rho> * (1 + u) + h) * (1 + 6 * u + 2 * h)"
    using r1 R1 k(3,4) by (intro mult_right_mono) simp_all
  also have "\<dots> = \<rho> * ((1 + u) * (1 + 6 * u + 2 * h)) + h * (1 + 6 * u + 2 * h)"
    by (simp add: algebra_simps)
  also have "\<rho> * ((1 + u) * (1 + 6 * u + 2 * h)) \<le> \<rho> * (1 + 1 / 2 ^ 50)"
  proof -
    have "(1 + u) * (1 + 6 * u + 2 * h) \<le> (1 + u + h) * (1 + 6 * u + 2 * h)"
      using k(3,4) by (intro mult_right_mono) simp_all
    with k(1) have "(1 + u) * (1 + 6 * u + 2 * h) \<le> 1 + 1 / 2 ^ 50" by linarith
    then show ?thesis using \<rho> by (rule mult_left_mono)
  qed
  finally have "sqrt ((latitude loc - latitude c)\<^sup>2 + (longitude loc - longitude c)\<^sup>2)
        \<le> \<rho> * (1 + 1 / 2 ^ 50) + (h * (1 + 6 * u + 2 * h) + 4 * h)
            + (\<bar>latitude c\<bar> + \<bar>longitude c\<bar>) * u"
    by simp
  with k(2) show ?thesis
    by (simp add: \<rho>_def u_def)
qed

lemma Math_zero [simp]: "Math_sqrt 0 = 0" "Math_cos 0 = 1" "Math_sin 0 = 0"
  by (simp_all add: Math_sqrt_def Math_cos_def Math_sin_def)

lemma Math_sqrt_quarter: "Math_sqrt (1 / 4) = 1 / 2"
  by (simp add: Math_sqrt_def real_sqrt_divide)

lemma Math_sqrt_below_one: "Math_sqrt (1 - 1 / 2 ^ 52) = 1 - 1 / 2 ^ 53"
proof -
  let ?x = "1 - 1 / 2 ^ 52 :: real"
  have lo: "1 - 3 / 2 ^ 54 < sqrt ?x"
    by (rule real_less_rsqrt) (simp add: power2_eq_square)
  have hi: "sqrt ?x < 1 - 1 / 2 ^ 54"
    by (rule real_less_lsqrt) (simp_all add: power2_eq_square)
  have b: "pow2 (- 1) \<le> \<bar>sqrt ?x\<bar>" "\<bar>sqrt ?x\<bar> < pow2 (- 1 + 1)"
    using lo hi by (simp_all add: pow2_def)
  define s where "s = sqrt ?x"
  have "2 ^ 53 - 3 / 2 < s * 2 ^ 53" "s * 2 ^ 53 < 2 ^ 53 - 1 / 2"
    using lo hi by (simp_all add: s_def)
  then have "\<bar>s * 2 ^ 53 - (2 ^ 53 - 1)\<bar> < 1 / 2" by linarith
  then have "\<bar>sqrt ?x / pow2 (- 1 - 52) - of_int (2 ^ 53 - 1)\<bar> < 1 / 2"
    by (simp add: pow2_def s_def)
  then have "round_even (sqrt ?x / pow2 (- 1 - 52)) = 2 ^ 53 - 1"
    by (rule round_even_unique)
  with rd_eval [OF b] show ?thesis
    by (simp add: Math_sqrt_def pow2_def)
qed

lemma location_halfway:
  "generateRandomLocation (Some \<lparr>latitude = 48, longitude = 2, radius = 111\<rparr>) 0 (1 / 4)
   = Inr \<lparr>latitude = 97 / 2, longitude = 2\<rparr>"
proof -
  have "rd (48 + 1 / 2) = 97 / 2"
    using rd_eval [of 5 "48 + 1 / 2"] by (simp add: pow2_def round_even_def)
  then show ?thesis
    by (simp add: generateRandomLocation_def Math_sqrt_quarter)
qed

lemma location_negative_radius:
  "generateRandomLocation (Some \<lparr>latitude = 48, longitude = 2, radius = - 111\<rparr>) 0 (1 / 4)
   = Inr \<lparr>latitude = 95 / 2, longitude = 2\<rparr>"
proof -
  have "rd (48 - 1 / 2) = 95 / 2"
    using rd_eval [of 5 "48 - 1 / 2"] by (simp add: pow2_def round_even_def)
  then show ?thesis
    by (simp add: generateRandomLocation_def Math_sqrt_quarter rd_minus)
qed

lemma location_at_angle_zero:
  "generateRandomLocation (Some c) 0 ur
   = Inr \<lparr>latitude = rd (latitude c + rd (Math_sqrt ur * rd (radius c / 111))),
          longitude = rd (longitude c)\<rparr>"
  by (simp add: generateRandomLocation_def rd_idem)

lemma sample_center_fields:
  "latitude sample_center = rd 48.8566" "longitude sample_center = rd 2.3522"
  "radius sample_center = 10"
  by (simp_all add: sample_center_def)

lemma rd_sample_latitude: "rd 48.8566 = 3437977586790459 / 2 ^ 46"
  using rd_eval [of 5 "48.8566"] by (simp add: pow2_def round_even_def)

lemma rd_sample_longitude: "rd 2.3522 = 662085440218805 / 2 ^ 48"
  using rd_eval [of 1 "2.3522"] by (simp add: pow2_def round_even_def)

lemma rd_sample_radius: "rd (10 / 111) = 3245837569276033 / 2 ^ 55"
  using rd_eval [of "- 4" "10 / 111"] by (simp add: pow2_def round_even_def)

lemma rd_sample_offset:
  "rd ((1 - 1 / 2 ^ 53) * (3245837569276033 / 2 ^ 55)) = 6491675138552065 / 2 ^ 56"
  using rd_eval [of "- 4" "(1 - 1 / 2 ^ 53) * (3245837569276033 / 2 ^ 55)"]
  by (simp add: pow2_def round_even_def)

lemma rd_sample_sum:
  "rd (3437977586790459 / 2 ^ 46 + 6491675138552065 / 2 ^ 56) = 6888634226585903 / 2 ^ 47"
  using rd_eval [of 5 "3437977586790459 / 2 ^ 46 + 6491675138552065 / 2 ^ 56"]
  by (simp add: pow2_def round_even_def)

lemma location_north_edge:
  "generateRandomLocation (Some sample_center) 0 (1 - 1 / 2 ^ 52)
   = Inr \<lparr>latitude = 6888634226585903 / 2 ^ 47, longitude = rd 2.3522\<rparr>"
  by (simp only: location_at_angle_zero sample_center_fields Math_sqrt_below_one rd_sample_radius
      rd_sample_offset rd_sample_latitude rd_sample_sum rd_idem)

lemma north_edge_outside:
  "radius sample_center / 111
   < sqrt ((6888634226585903 / 2 ^ 47 - latitude sample_center)\<^sup>2
           + (rd 2.3522 - longitude sample_center)\<^sup>2)"
  using rd_sample_latitude by (simp add: sample_center_fields)

text \<open>
  Claim C7 as stated fails. For a negative radius the bound \<open>radius / 111\<close> is negative:
  at the centre \<open>(48, 2)\<close> with radius \<open>-111\<close>, angle draw 0 and radius draw 1/4 the
  location is half a degree from the centre. For the entry of Paris, radius 10, angle draw
  0 and the radius draw \<open>1 - 2^-52\<close>, the sum of latitude and offset rounds upwards, and
  the location is further than \<open>10 / 111\<close> degrees from the centre.
\<close>

theorem location_outside_radius:
  "generateRandomLocation (Some \<lparr>latitude = 48, longitude = 2, radius = - 111\<rparr>) 0 (1 / 4)
     = Inr \<lparr>latitude = 95 / 2, longitude = 2\<rparr>
   \<and> radius \<lparr>latitude = 48, longitude = 2, radius = - 111\<rparr> / 111
       < sqrt ((95 / 2 - 48)\<^sup>2 + (2 - 2)\<^sup>2)
   \<and> 0 \<le> radius sample_center
   \<and> generateRandomLocation (Some sample_center) 0 (1 - 1 / 2 ^ 52)
       = Inr \<lparr>latitude = 6888634226585903 / 2 ^ 47, longitude = rd 2.3522\<rparr>
   \<and> radius sample_center / 111
       < sqrt ((6888634226585903 / 2 ^ 47 - latitude sample_center)\<^sup>2
               + (rd 2.3522 - longitude sample_center)\<^sup>2)"
proof -
  have "radius \<lparr>latitude = 48, longitude = 2, radius = - 111\<rparr> / 111
        < sqrt ((95 / 2 - 48)\<^sup>2 + (2 - 2)\<^sup>2)"
    by simp
  moreover have "0 \<le> radius sample_center" by (simp add: sample_center_fields)
  ultimately show ?thesis
    using location_negative_radius location_north_edge north_edge_outside by (simp only:)
qed

text \<open>
  The theorem of claim C7 at the centre \<open>(48, 2)\<close> with radius 111 km, angle draw 0 and
  radius draw 1/4: the location is half a degree north of the centre.
\<close>

theorem location_within_radius_witness:
  "(0::real) \<le> radius \<lparr>latitude = 48, longitude = 2, radius = 111\<rparr>
   \<and> (0::real) \<le> 1 / 4 \<and> (1 / 4 :: real) < 1
   \<and> generateRandomLocation (Some \<lparr>latitude = 48, longitude = 2, radius = 111\<rparr>) 0 (1 / 4)
       = Inr \<lparr>latitude = 97 / 2, longitude = 2\<rparr>
   \<and> radius \<lparr>latitude = 48, longitude = 2, radius = 111\<rparr> \<le> 2 ^ 1023
   \<and> \<bar>latitude \<lparr>latitude = 48, longitude = 2, radius = 111\<rparr>\<bar> \<le> 2 ^ 1023
   \<and> \<bar>longitude \<lparr>latitude = 48, longitude = 2, radius = 111\<rparr>\<bar> \<le> 2 ^ 1023
   \<and> sqrt ((latitude \<lparr>latitude = 97 / 2, longitude = 2\<rparr>
              - latitude \<lparr>latitude = 48, longitude = 2, radius = 111\<rparr>)\<^sup>2
           + (longitude \<lparr>latitude = 97 / 2, longitude = 2\<rparr>
              - longitude \<lparr>latitude = 48, longitude = 2, radius = 111\<rparr>)\<^sup>2)
       \<le> radius \<lparr>latitude = 48, longitude = 2, radius = 111\<rparr> / 111 * (1 + 1 / 2 ^ 50)
          + (\<bar>latitude \<lparr>latitude = 48, longitude = 2, radius = 111\<rparr>\<bar>
             + \<bar>longitude \<lparr>latitude = 48, longitude = 2, radius = 111\<rparr>\<bar>) / 2 ^ 53
          + 1 / 2 ^ 1072"
proof -
  have r: "(0::real) \<le> radius \<lparr>latitude = 48, longitude = 2, radius = 111\<rparr>" by simp
  have u: "(0::real) \<le> 1 / 4" "(1 / 4 :: real) < 1" by simp_all
  have b: "radius \<lparr>latitude = 48, longitude = 2, radius = 111\<rparr> \<le> 2 ^ 1023"
    "\<bar>latitude \<lparr>latitude = 48, longitude = 2, radius = 111\<rparr>\<bar> \<le> 2 ^ 1023"
    "\<bar>longitude \<lparr>latitude = 48, longitude = 2, radius = 111\<rparr>\<bar> \<le> 2 ^ 1023"
    by simp_all
  show ?thesis
    using location_within_radius [OF r u location_halfway b] r u location_halfway b
    by (simp only:)
qed

lemma sample_valid_draws: "valid_draws mockData sample_draws"
  by (simp add: valid_draws_def unit_draw_def sample_draws_def)

lemma sample_double_draws: "double_draws sample_draws"
  by (simp add: double_draws_def sample_draws_def is_double_0)

lemma offer_parts:
  assumes "generate_offer n2s mockData d = Inr offer"
  shows "rating offer = toFixed n2s 1 (rd (rd (u_rating d * 2) + 3))"
    and "rooms offer = generateRandomNumber 1 5 (u_rooms d)"
    and "guests offer = generateRandomNumber 1 10 (u_guests d)"
    and "price offer = generateRandomNumber 50 1000 (u_price d)"
    and "photos offer = join [59] (photos_list mockData d)"
    and "offer_features offer = join [59] (features_list mockData d)"
  using assms
  by (auto simp add: generate_offer_def Let_def split: sum.splits option.splits)

lemma list_length_bounds:
  assumes "a \<le> k" and "k \<le> b" and "0 \<le> a" and "mset (shuffle items) = mset items"
  shows "\<exists>n. nat a \<le> n \<and> n \<le> nat b
           \<and> length (getRandomItems items k shuffle) = min n (length items)"
proof -
  have "length (shuffle items) = length items"
    using assms(4) by (rule mset_eq_length)
  with assms(1,3) have "length (getRandomItems items k shuffle) = min (nat k) (length items)"
    by (intro getRandomItems_length) simp_all
  moreover from assms(1,2) have "nat a \<le> nat k" "nat k \<le> nat b" by simp_all
  ultimately show ?thesis by blast
qed

lemma draw_below_one:
  assumes "unit_draw u" and "is_double u"
  shows "0 \<le> u" and "u \<le> top_draw" and "u \<noteq> top_draw \<Longrightarrow> u \<le> 1 - 1 / 2 ^ 52"
  using assms double_below_one [of u] by (simp_all add: unit_draw_def top_draw_def)

text \<open>
  At the largest double below 1 the sum \<open>u * 4 + 3\<close> rounds to 7
  (\<open>photos_count_at_top_draw\<close>), and seven photos are taken when there are as many.
\<close>

lemma seven_photos:
  assumes "u_photosCount d = top_draw"
    and "mset (shuffle_photos d (previewImages mockData)) = mset (previewImages mockData)"
  shows "length (photos_list mockData d) = min 7 (length (previewImages mockData))"
proof -
  have "length (shuffle_photos d (previewImages mockData)) = length (previewImages mockData)"
    using assms(2) by (rule mset_eq_length)
  then show ?thesis
    by (simp add: photos_list_def assms(1) photos_count_at_top_draw getRandomItems_length)
qed

text \<open>
  Claim C6, amended. For every offer generated from draws that are doubles in \<open>[0, 1)\<close>,
  the draw of the number of photos not being the largest double below 1: the rating is the
  text of a number from 3.0 to 5.0 with one fractional digit; price, rooms and guests are
  integers in \<open>[50, 1000]\<close>, \<open>[1, 5]\<close> and \<open>[1, 10]\<close>; the photos are
  \<open>min k (number of preview images)\<close> items for some \<open>k\<close> in \<open>[3, 6]\<close>, and the features
  \<open>min k (number of features)\<close> items for some \<open>k\<close> in \<open>[2, 6]\<close>.
\<close>

theorem offer_fields_in_range:
  assumes "valid_draws mockData d" and "double_draws d" and "u_photosCount d \<noteq> top_draw"
    and "generate_offer n2s mockData d = Inr offer"
  shows "(\<exists>n. 30 \<le> n \<and> n \<le> 50 \<and> rating offer = [48 + n div 10, 46, 48 + n mod 10])
         \<and> 50 \<le> price offer \<and> price offer \<le> 1000
         \<and> 1 \<le> rooms offer \<and> rooms offer \<le> 5
         \<and> 1 \<le> guests offer \<and> guests offer \<le> 10
         \<and> photos offer = join [59] (photos_list mockData d)
         \<and> (\<exists>k. 3 \<le> k \<and> k \<le> 6
               \<and> length (photos_list mockData d) = min k (length (previewImages mockData)))
         \<and> offer_features offer = join [59] (features_list mockData d)
         \<and> (\<exists>k. 2 \<le> k \<and> k \<le> 6
               \<and> length (features_list mockData d) = min k (length (features mockData)))"
proof -
  note v = assms(1) [unfolded valid_draws_def]
  note w = assms(2) [unfolded double_draws_def]
  note o = offer_parts [OF assms(4)]
  have u_rating: "0 \<le> u_rating d" "u_rating d \<le> top_draw"
    using v w by (simp_all add: draw_below_one)
  have u_price: "0 \<le> u_price d" "u_price d \<le> top_draw"
    using v w by (simp_all add: draw_below_one)
  have u_rooms: "0 \<le> u_rooms d" "u_rooms d \<le> top_draw"
    using v w by (simp_all add: draw_below_one)
  have u_guests: "0 \<le> u_guests d" "u_guests d \<le> top_draw"
    using v w by (simp_all add: draw_below_one)
  have u_features: "0 \<le> u_featuresCount d" "u_featuresCount d \<le> top_draw"
    using v w by (simp_all add: draw_below_one)
  have u_photos: "0 \<le> u_photosCount d"
    "u_photosCount d \<noteq> top_draw \<Longrightarrow> u_photosCount d \<le> 1 - 1 / 2 ^ 52"
  proof -
    have a: "unit_draw (u_photosCount d)" and b: "is_double (u_photosCount d)"
      using v w by simp_all
    show "0 \<le> u_photosCount d" using a b by (rule draw_below_one(1))
    show "u_photosCount d \<noteq> top_draw \<Longrightarrow> u_photosCount d \<le> 1 - 1 / 2 ^ 52"
      using a b by (rule draw_below_one(3))
  qed
  have p: "mset (shuffle_photos d (previewImages mockData)) = mset (previewImages mockData)"
    and f: "mset (shuffle_features d (features mockData)) = mset (features mockData)"
    using v by simp_all
  have rating: "\<exists>n. 30 \<le> n \<and> n \<le> 50 \<and> rating offer = [48 + n div 10, 46, 48 + n mod 10]"
    unfolding o(1) using rating_bounds [OF u_rating] by (rule rating_text)
  have price: "50 \<le> price offer \<and> price offer \<le> 1000"
    using price_bounds [OF u_price] by (simp add: o(4))
  have rooms: "1 \<le> rooms offer \<and> rooms offer \<le> 5"
    using rooms_bounds [OF u_rooms] by (simp add: o(2))
  have guests: "1 \<le> guests offer \<and> guests offer \<le> 10"
    using guests_bounds [OF u_guests] by (simp add: o(3))
  have photos: "\<exists>k. 3 \<le> k \<and> k \<le> 6
      \<and> length (photos_list mockData d) = min k (length (previewImages mockData))"
  proof -
    note b = photos_count_bounds [OF u_photos(1) u_photos(2) [OF assms(3)]]
    have "\<exists>n. nat 3 \<le> n \<and> n \<le> nat 6
        \<and> length (getRandomItems (previewImages mockData)
              (generateRandomNumber 3 6 (u_photosCount d)) (shuffle_photos d))
            = min n (length (previewImages mockData))"
      using b _ p by (rule list_length_bounds) simp
    then show ?thesis by (simp add: photos_list_def)
  qed
  have features: "\<exists>k. 2 \<le> k \<and> k \<le> 6
      \<and> length (features_list mockData d) = min k (length (features mockData))"
  proof -
    note b = features_count_bounds [OF u_features]
    have "\<exists>n. nat 2 \<le> n \<and> n \<le> nat 6
        \<and> length (getRandomItems (features mockData)
              (generateRandomNumber 2 6 (u_featuresCount d)) (shuffle_features d))
            = min n (length (features mockData))"
      using b _ f by (rule list_length_bounds) simp
    then show ?thesis by (simp add: features_list_def)
  qed
  from rating price rooms guests photos features o(5,6) show ?thesis by blast
qed

section \<open>The generator on the sample dataset\<close>

lemma getRandomItem_zero: "items \<noteq> [] \<Longrightarrow> getRandomItem items 0 = Some (hd items)"
  by (cases items) (simp_all add: getRandomItem_def)

lemma sample_location:
  "generateRandomLocation (Some sample_center) 0 0
   = Inr \<lparr>latitude = latitude sample_center, longitude = longitude sample_center\<rparr>"
  by (simp add: location_at_angle_zero sample_center_def rd_idem)

lemma fixed_digits_6: "fixed_digits 6 m =
  [48 + m div 10 div 10 div 10 div 10 div 10 mod 10, 48 + m div 10 div 10 div 10 div 10 mod 10,
   48 + m div 10 div 10 div 10 mod 10, 48 + m div 10 div 10 mod 10, 48 + m div 10 mod 10,
   48 + m mod 10]"
proof -
  have s: "(6::nat) = Suc (Suc (Suc (Suc (Suc (Suc 0)))))" by simp
  show ?thesis by (subst s) (simp only: fixed_digits.simps append.simps)
qed

lemma digits_two: "10 \<le> n \<Longrightarrow> n < 100 \<Longrightarrow> digits n = [48 + n div 10, 48 + n mod 10]"
  by (subst digits.simps) (simp add: digits_one)

lemma sample_latitude: "toFixed n2s 6 (latitude sample_center) = js ''48.856600''"
proof -
  have l: "latitude sample_center = 3437977586790459 / 2 ^ 46"
    by (simp only: sample_center_fields rd_sample_latitude)
  show ?thesis
    unfolding l by (simp add: toFixed_def fixed_digits_6 digits_two js_def)
qed

lemma sample_longitude: "toFixed n2s 6 (longitude sample_center) = js ''2.352200''"
proof -
  have l: "longitude sample_center = 662085440218805 / 2 ^ 48"
    by (simp only: sample_center_fields rd_sample_longitude)
  show ?thesis
    unfolding l by (simp add: toFixed_def fixed_digits_6 digits_one js_def)
qed

lemma sample_rating: "toFixed n2s 1 (rd (rd (0 * 2) + 3)) = js ''3.0''"
  by (simp add: toFixed_def digits_one js_def)

lemma generate_at_zero:
  assumes "cities mockData = [js ''Paris'']" and "coordinates mockData (js ''Paris'') = Some sample_center"
    and "users mockData = [u]"
  shows "generate_offer n2s mockData sample_draws = Inr
    \<lparr>title = getRandomItem (titles mockData) 0,
     description = getRandomItem (descriptions mockData) 0,
     city = Some (js ''Paris''),
     previewImage = getRandomItem (previewImages mockData) 0,
     photos = join [59] (take 3 (previewImages mockData)),
     isPremium = True,
     rating = js ''3.0'',
     offer_type = getRandomItem (propertyTypes mockData) 0,
     rooms = 1, guests = 1, price = 50,
     offer_features = join [59] (take 2 (features mockData)),
     authorName = name u, authorEmail = email u, authorAvatar = avatarUrl u,
     authorIsPro = (type u = js ''pro''),
     offer_latitude = js ''48.856600'', offer_longitude = js ''2.352200''\<rparr>"
proof -
  have d: "u_city sample_draws = 0" "u_angle sample_draws = 0" "u_radius sample_draws = 0"
    "u_user sample_draws = 0" "u_title sample_draws = 0" "u_description sample_draws = 0"
    "u_previewImage sample_draws = 0" "u_isPremium sample_draws = 0" "u_rating sample_draws = 0"
    "u_type sample_draws = 0" "u_rooms sample_draws = 0" "u_guests sample_draws = 0"
    "u_price sample_draws = 0"
    by (simp_all add: sample_draws_def)
  have p: "photos_list mockData sample_draws = take 3 (previewImages mockData)"
    by (simp add: photos_list_def sample_draws_def getRandomItems_def slice0_def
        generateRandomNumber_def)
  have f: "features_list mockData sample_draws = take 2 (features mockData)"
    by (simp add: features_list_def sample_draws_def getRandomItems_def slice0_def
        generateRandomNumber_def)
  have c: "getRandomItem (cities mockData) 0 = Some (js ''Paris'')"
    by (simp add: assms(1) getRandomItem_zero)
  have us: "getRandomItem (users mockData) 0 = Some u"
    by (simp add: assms(3) getRandomItem_zero)
  have n: "generateRandomNumber 1 5 0 = 1" "generateRandomNumber 1 10 0 = 1"
    "generateRandomNumber 50 1000 0 = 50"
    by (simp_all add: generateRandomNumber_def)
  show ?thesis
    unfolding generate_offer_def d
    by (simp only: c us assms(2) p f n sample_location sample_latitude sample_longitude
        sample_rating Let_def option.case sum.case location.select_convs) simp
qed

lemma sample_data_fields:
  "cities sample_data = [js ''Paris'']"
  "coordinates sample_data (js ''Paris'') = Some sample_center"
  "users sample_data = [\<lparr>name = js ''Jane'', email = js ''jane@x.com'',
     avatarUrl = js ''avatar.jpg'', type = js ''pro''\<rparr>]"
  by (simp_all add: sample_data_def)

lemma sample_generate: "generate_offer n2s sample_data sample_draws = Inr sample_offer"
  unfolding generate_at_zero [OF sample_data_fields]
  by (simp add: sample_data_def sample_offer_def getRandomItem_zero) (simp add: js_def)

lemma few_photos_generate:
  "generate_offer n2s few_photos_data sample_draws = Inr (sample_offer\<lparr>photos := js ''img.jpg''\<rparr>)"
proof -
  have f: "cities few_photos_data = [js ''Paris'']"
    "coordinates few_photos_data (js ''Paris'') = Some sample_center"
    "users few_photos_data = [\<lparr>name = js ''Jane'', email = js ''jane@x.com'',
       avatarUrl = js ''avatar.jpg'', type = js ''pro''\<rparr>]"
    by (simp_all add: few_photos_data_def sample_data_def)
  show ?thesis
    unfolding generate_at_zero [OF f]
    by (simp add: few_photos_data_def sample_data_def sample_offer_def getRandomItem_zero)
       (simp add: js_def)
qed

text \<open>
  Claim C6 as stated fails: from a dataset with a single preview image an offer is
  generated whose photos list has one element.
\<close>

theorem few_photos_counterexample:
  "valid_draws few_photos_data sample_draws
   \<and> generate_offer sample_n2s few_photos_data sample_draws
       = Inr (sample_offer\<lparr>photos := js ''img.jpg''\<rparr>)
   \<and> photos_list few_photos_data sample_draws = [js ''img.jpg'']
   \<and> length (photos_list few_photos_data sample_draws) < 3"
proof -
  have "photos_list few_photos_data sample_draws = [js ''img.jpg'']"
    by (simp add: photos_list_def few_photos_data_def sample_draws_def getRandomItems_def
        slice0_def generateRandomNumber_def)
  then show ?thesis
    by (simp add: sample_valid_draws few_photos_generate)
qed

text \<open>
  The theorem of claim C6 at the sample dataset and the draws that are all zero.
\<close>

theorem offer_fields_in_range_witness:
  "valid_draws sample_data sample_draws \<and> double_draws sample_draws
   \<and> u_photosCount sample_draws \<noteq> top_draw
   \<and> generate_offer sample_n2s sample_data sample_draws = Inr sample_offer
   \<and> (\<exists>n. 30 \<le> n \<and> n \<le> 50 \<and> rating sample_offer = [48 + n div 10, 46, 48 + n mod 10])
   \<and> 50 \<le> price sample_offer \<and> price sample_offer \<le> 1000
   \<and> 1 \<le> rooms sample_offer \<and> rooms sample_offer \<le> 5
   \<and> 1 \<le> guests sample_offer \<and> guests sample_offer \<le> 10
   \<and> photos sample_offer = join [59] (photos_list sample_data sample_draws)
   \<and> (\<exists>k. 3 \<le> k \<and> k \<le> 6
         \<and> length (photos_list sample_data sample_draws) = min k (length (previewImages sample_data)))
   \<and> offer_features sample_offer = join [59] (features_list sample_data sample_draws)
   \<and> (\<exists>k. 2 \<le> k \<and> k \<le> 6
         \<and> length (features_list sample_data sample_draws) = min k (length (features sample_data)))"
proof -
  have v: "valid_draws sample_data sample_draws" by (rule sample_valid_draws)
  have g: "generate_offer sample_n2s sample_data sample_draws = Inr sample_offer"
    by (rule sample_generate)
  have w: "double_draws sample_draws" by (rule sample_double_draws)
  have t: "u_photosCount sample_draws \<noteq> top_draw"
    by (simp add: sample_draws_def top_draw_def)
  show ?thesis
    using offer_fields_in_range [OF v w t g] v w t g by (simp only: simp_thms)
qed

section \<open>The shape of a generated line\<close>

lemma getRandomItem_member:
  assumes "getRandomItem items u = Some x"
  shows "x \<in> set items"
proof -
  let ?i = "\<lfloor>u * real (length items)\<rfloor>"
  from assms have i: "0 \<le> ?i" "?i < int (length items)" and x: "x = items ! nat ?i"
    by (auto simp add: getRandomItem_def Let_def split: if_splits)
  from i have "nat ?i < length items" by linarith
  with x show ?thesis by simp
qed

lemma getRandomItem_defined:
  assumes "unit_draw u" and "items \<noteq> []"
  shows "\<exists>x. getRandomItem items u = Some x"
proof -
  let ?n = "real (length items)"
  have n: "0 < ?n" using assms(2) by simp
  have "0 \<le> u * ?n" using assms(1) by (simp add: unit_draw_def)
  then have lo: "0 \<le> \<lfloor>u * ?n\<rfloor>" by simp
  have "u * ?n < 1 * ?n"
    using assms(1) n by (intro mult_strict_right_mono) (simp_all add: unit_draw_def)
  then have "u * ?n < real_of_int (int (length items))" by simp
  then have hi: "\<lfloor>u * ?n\<rfloor> < int (length items)" by (simp only: floor_less_iff)
  from lo hi show ?thesis by (simp add: getRandomItem_def Let_def)
qed

lemma plain_opt_text:
  "list_all plain items \<Longrightarrow> plain (opt_text (getRandomItem items u))"
  by (cases "getRandomItem items u")
     (auto simp add: opt_text_def plain_def list_all_iff dest: getRandomItem_member)

lemma set_join: "set (join sep xs) \<subseteq> set sep \<union> \<Union> (set ` set xs)"
  by (induction sep xs rule: join.induct) auto

lemma plain_join:
  assumes "\<forall>x \<in> set xs. plain x"
  shows "plain (join [59] xs)"
proof -
  have "set (join [59] xs) \<subseteq> {59} \<union> \<Union> (set ` set xs)"
    using set_join [of "[59]" xs] by simp
  with assms show ?thesis
    by (auto simp add: plain_def tab_def nl_def)
qed

lemma set_slice0: "set (slice0 xs k) \<subseteq> set xs"
  by (auto simp add: slice0_def dest: in_set_takeD)

lemma set_getRandomItems:
  "mset (shuffle items) = mset items \<Longrightarrow> set (getRandomItems items k shuffle) \<subseteq> set items"
  using set_slice0 [of "shuffle items" k] mset_eq_setD [of "shuffle items" items]
  by (simp add: getRandomItems_def)

lemma plain_digits: "plain (digits n)"
proof (induction n rule: digits.induct)
  case (1 n)
  show ?case
  proof (cases "n < 10")
    case True
    then show ?thesis by (simp add: digits_one plain_def tab_def nl_def)
  next
    case False
    with 1 have "plain (digits (n div 10))" by simp
    with False show ?thesis
      by (subst digits.simps) (simp add: plain_def tab_def nl_def)
  qed
qed

lemma plain_fixed_digits: "plain (fixed_digits k m)"
  by (induction k arbitrary: m) (simp_all add: plain_def tab_def nl_def)

lemma plain_append: "plain (a @ b) \<longleftrightarrow> plain a \<and> plain b"
  by (auto simp add: plain_def)

lemma plain_toFixed: "\<forall>x. plain (n2s x) \<Longrightarrow> plain (toFixed n2s f x)"
  using plain_digits plain_fixed_digits
  by (simp add: toFixed_def Let_def plain_append) (simp add: plain_def tab_def nl_def)

lemma plain_int_text: "\<forall>x. plain (n2s x) \<Longrightarrow> plain (int_text n2s i)"
  using plain_digits
  by (simp add: int_text_def plain_append) (simp add: plain_def tab_def nl_def)

lemma plain_bool_text: "plain (bool_text b)"
  by (simp add: bool_text_def plain_def js_def tab_def nl_def)

lemma split_join:
  assumes "fs \<noteq> []" and "\<forall>f \<in> set fs. sep \<notin> set f"
  shows "split sep (join [sep] fs) = fs"
  using assms
proof (induction "[sep]" fs rule: join.induct)
  case 1
  then show ?case by simp
next
  case (2 x)
  then show ?case by (simp add: split_no_sep)
next
  case (3 x y ys)
  then show ?case by (simp add: split_line)
qed

lemma set_join_sep:
  "set (join [sep] fs) \<subseteq> {sep} \<union> \<Union> (set ` set fs)"
  using set_join [of "[sep]" fs] by simp

lemma generate_offer_defined:
  assumes "complete_data mockData" and "valid_draws mockData d"
  shows "\<exists>offer. generate_offer n2s mockData d = Inr offer"
proof -
  from assms obtain c where c: "getRandomItem (cities mockData) (u_city d) = Some c"
    using getRandomItem_defined [of "u_city d" "cities mockData"]
    by (auto simp add: complete_data_def valid_draws_def)
  then have "c \<in> set (cities mockData)" by (rule getRandomItem_member)
  with assms(1) obtain ctr where ctr: "coordinates mockData c = Some ctr"
    by (auto simp add: complete_data_def list_all_iff)
  from assms obtain u where u: "getRandomItem (users mockData) (u_user d) = Some u"
    using getRandomItem_defined [of "u_user d" "users mockData"]
    by (auto simp add: complete_data_def valid_draws_def)
  show ?thesis
    by (simp add: generate_offer_def c ctr u generateRandomLocation_def Let_def)
qed

lemma offer_strings:
  assumes "generate_offer n2s mockData d = Inr offer"
  shows "title offer = getRandomItem (titles mockData) (u_title d)"
    and "description offer = getRandomItem (descriptions mockData) (u_description d)"
    and "city offer = getRandomItem (cities mockData) (u_city d)"
    and "previewImage offer = getRandomItem (previewImages mockData) (u_previewImage d)"
    and "offer_type offer = getRandomItem (propertyTypes mockData) (u_type d)"
    and "\<exists>u \<in> set (users mockData).
           authorName offer = name u \<and> authorEmail offer = email u \<and> authorAvatar offer = avatarUrl u"
    and "\<exists>x y. offer_latitude offer = toFixed n2s 6 x \<and> offer_longitude offer = toFixed n2s 6 y"
  using assms
  by (auto simp add: generate_offer_def Let_def split: sum.splits option.splits
      dest: getRandomItem_member)

lemma row_plain:
  assumes "plain_data mockData" and "valid_draws mockData d" and "\<forall>x. plain (n2s x)"
    and "generate_offer n2s mockData d = Inr offer"
  shows "\<forall>f \<in> set (row n2s offer). plain f"
proof -
  note p = assms(1) [unfolded plain_data_def]
  note v = assms(2) [unfolded valid_draws_def]
  note s = offer_strings [OF assms(4)]
  note o = offer_parts [OF assms(4)]
  have f1: "plain (opt_text (title offer))" using p by (simp add: s(1) plain_opt_text)
  have f2: "plain (opt_text (description offer))" using p by (simp add: s(2) plain_opt_text)
  have f3: "plain (opt_text (city offer))" using p by (simp add: s(3) plain_opt_text)
  have f4: "plain (opt_text (previewImage offer))" using p by (simp add: s(4) plain_opt_text)
  have "set (photos_list mockData d) \<subseteq> set (previewImages mockData)"
    using v by (simp add: photos_list_def set_getRandomItems)
  then have f5: "plain (photos offer)"
    using p by (auto simp add: o(5) list_all_iff intro!: plain_join)
  have f6: "plain (bool_text (isPremium offer))" by (rule plain_bool_text)
  have f7: "plain (rating offer)" using assms(3) by (simp add: o(1) plain_toFixed)
  have f8: "plain (opt_text (offer_type offer))" using p by (simp add: s(5) plain_opt_text)
  have f9: "plain (int_text n2s (rooms offer))" "plain (int_text n2s (guests offer))"
    "plain (int_text n2s (price offer))"
    using assms(3) by (simp_all add: plain_int_text)
  have "set (features_list mockData d) \<subseteq> set (features mockData)"
    using v by (simp add: features_list_def set_getRandomItems)
  then have f12: "plain (offer_features offer)"
    using p by (auto simp add: o(6) list_all_iff intro!: plain_join)
  have f13: "plain (authorName offer)" "plain (authorEmail offer)" "plain (authorAvatar offer)"
    using p s(6) by (auto simp add: list_all_iff)
  have f16: "plain (bool_text (authorIsPro offer))" by (rule plain_bool_text)
  have f17: "plain (offer_latitude offer)" "plain (offer_longitude offer)"
    using s(7) assms(3) by (auto simp add: plain_toFixed)
  from f1 f2 f3 f4 f5 f6 f7 f8 f9 f12 f13 f16 f17 show ?thesis
    by (simp add: row_def)
qed

lemma length_row: "length (row n2s offer) = 18"
  by (simp add: row_def)

lemma offer_line_shape:
  assumes "complete_data mockData" and "plain_data mockData" and "valid_draws mockData d"
    and "\<forall>x. plain (n2s x)"
  shows "\<exists>r. offer_line n2s mockData d = Inr (r @ [nl]) \<and> nl \<notin> set r
             \<and> length (split tab r) = 18"
proof -
  from assms(1,3) obtain offer where g: "generate_offer n2s mockData d = Inr offer"
    using generate_offer_defined by blast
  let ?r = "join [tab] (row n2s offer)"
  have pl: "\<forall>f \<in> set (row n2s offer). plain f"
    using assms(2,3,4) g by (rule row_plain)
  have ne: "row n2s offer \<noteq> []" using length_row [of n2s offer] by auto
  have "split tab ?r = row n2s offer"
    using ne pl by (intro split_join) (simp_all add: plain_def)
  then have a: "length (split tab ?r) = 18" by (simp add: length_row)
  have "set ?r \<subseteq> {tab} \<union> \<Union> (set ` set (row n2s offer))" by (rule set_join_sep)
  with pl have b: "nl \<notin> set ?r" by (auto simp add: plain_def tab_def nl_def)
  have "offer_line n2s mockData d = Inr (?r @ [nl])" by (simp add: offer_line_def g)
  with a b show ?thesis by blast
qed

lemma write_lines_all:
  assumes "\<forall>i. \<exists>r. offer_line n2s mockData (rnd i) = Inr (r @ [nl]) \<and> P r"
  shows "\<exists>lines. write_lines n2s mockData cnt rnd i = (lines, None)
           \<and> int (length lines) = max 0 (cnt - int i)
           \<and> (\<forall>l \<in> set lines. \<exists>r. l = r @ [nl] \<and> P r)"
  using assms
proof (induction n2s mockData cnt rnd i rule: write_lines.induct)
  case (1 n2s mockData cnt rnd i)
  show ?case
  proof (cases "int i < cnt")
    case False
    then have "write_lines n2s mockData cnt rnd i = ([], None)"
      by (subst write_lines.simps) (simp add: generateOffers_def)
    with False show ?thesis by simp
  next
    case True
    from "1.prems" obtain r where r: "offer_line n2s mockData (rnd i) = Inr (r @ [nl])" "P r"
      by blast
    with True have y: "generateOffers n2s mockData cnt rnd i = Yield (r @ [nl]) (i + 1)"
      by (simp add: generateOffers_def)
    from "1.IH" [OF y "1.prems"] obtain lines
      where l: "write_lines n2s mockData cnt rnd (i + 1) = (lines, None)"
        "int (length lines) = max 0 (cnt - int (i + 1))"
        "\<forall>l \<in> set lines. \<exists>r. l = r @ [nl] \<and> P r"
      by blast
    have "write_lines n2s mockData cnt rnd i = ((r @ [nl]) # lines, None)"
      using l(1) by (subst write_lines.simps) (simp add: y)
    moreover have "int (length ((r @ [nl]) # lines)) = max 0 (cnt - int i)"
      using True l(2) by simp
    moreover have "\<forall>l \<in> set ((r @ [nl]) # lines). \<exists>r. l = r @ [nl] \<and> P r"
      using r(2) l(3) by auto
    ultimately show ?thesis by blast
  qed
qed

text \<open>
  Claim C5, amended. For a dataset that has a city, a user and coordinates for every city,
  and whose texts hold no tab and no newline, and for every count: pulling the generator
  to its end writes exactly \<open>count\<close> lines (none for a count below zero) and throws
  nothing; every line ends with a newline and has exactly eighteen tab-separated fields
  before it; every pull below the count yields one line and moves the generator one step,
  and the pull at the count ends the sequence.
\<close>

theorem generateOffers_lines:
  assumes "complete_data mockData" and "plain_data mockData"
    and "\<forall>i. valid_draws mockData (rnd i)" and "\<forall>x. plain (n2s x)"
  shows "\<exists>lines. write_lines n2s mockData cnt rnd 0 = (lines, None)
           \<and> length lines = nat cnt
           \<and> (\<forall>l \<in> set lines. \<exists>r. l = r @ [nl] \<and> nl \<notin> set r \<and> length (split tab r) = 18)
           \<and> (\<forall>i. int i < cnt \<longrightarrow> (\<exists>l. generateOffers n2s mockData cnt rnd i = Yield l (i + 1)))
           \<and> generateOffers n2s mockData cnt rnd (nat cnt) = Done"
proof -
  have line: "\<exists>r. offer_line n2s mockData (rnd i) = Inr (r @ [nl])
                \<and> (nl \<notin> set r \<and> length (split tab r) = 18)" for i
    using assms by (intro offer_line_shape) simp_all
  then obtain lines where l: "write_lines n2s mockData cnt rnd 0 = (lines, None)"
      "int (length lines) = max 0 (cnt - int 0)"
      "\<forall>l \<in> set lines. \<exists>r. l = r @ [nl] \<and> (nl \<notin> set r \<and> length (split tab r) = 18)"
    using write_lines_all [of n2s mockData rnd "\<lambda>r. nl \<notin> set r \<and> length (split tab r) = 18" cnt 0]
    by blast
  from l(2) have n: "length lines = nat cnt" by simp
  have pull: "\<exists>l. generateOffers n2s mockData cnt rnd i = Yield l (i + 1)" if "int i < cnt" for i
    using that line [of i] by (auto simp add: generateOffers_def)
  have fin: "generateOffers n2s mockData cnt rnd (nat cnt) = Done"
    by (simp add: generateOffers_def)
  from l(1,3) n pull fin show ?thesis by blast
qed

lemma sample_row_eval: "row n2s sample_offer = sample_row"
  by (simp add: row_def sample_offer_def sample_row_def opt_text_def bool_text_def int_text_def
      digits_one digits_two) (simp add: js_def)

lemma sample_offer_line:
  "offer_line n2s sample_data sample_draws = Inr (join [tab] sample_row @ [nl])"
  by (simp add: offer_line_def sample_generate sample_row_eval)

lemma write_lines_end:
  "\<not> int i < cnt \<Longrightarrow> write_lines n2s mockData cnt rnd i = ([], None)"
  by (subst write_lines.simps) (simp add: generateOffers_def)

lemma write_lines_step:
  assumes "int i < cnt" and "offer_line n2s mockData (rnd i) = Inr l"
    and "write_lines n2s mockData cnt rnd (Suc i) = (ls, e)"
  shows "write_lines n2s mockData cnt rnd i = (l # ls, e)"
  using assms by (subst write_lines.simps) (simp add: generateOffers_def)

lemma write_lines_one:
  assumes "offer_line n2s mockData (rnd 0) = Inr l"
  shows "write_lines n2s mockData 1 rnd 0 = ([l], None)"
proof -
  have "write_lines n2s mockData 1 rnd (Suc 0) = ([], None)"
    by (subst write_lines.simps) (simp add: generateOffers_def)
  then show ?thesis
    using assms by (subst write_lines.simps) (simp add: generateOffers_def)
qed

lemma tab_title_generate:
  "generate_offer n2s tab_title_data sample_draws
   = Inr (sample_offer\<lparr>title := Some (js ''Cozy'' @ [tab] @ js ''Loft'')\<rparr>)"
proof -
  have f: "cities tab_title_data = [js ''Paris'']"
    "coordinates tab_title_data (js ''Paris'') = Some sample_center"
    "users tab_title_data = [\<lparr>name = js ''Jane'', email = js ''jane@x.com'',
       avatarUrl = js ''avatar.jpg'', type = js ''pro''\<rparr>]"
    by (simp_all add: tab_title_data_def sample_data_def)
  show ?thesis
    unfolding generate_at_zero [OF f]
    by (simp add: tab_title_data_def sample_data_def sample_offer_def getRandomItem_zero)
       (simp add: js_def)
qed

lemma sample_complete: "complete_data sample_data"
  by (simp add: complete_data_def sample_data_def)

lemma sample_plain: "plain_data sample_data"
  by (simp add: plain_data_def sample_data_def plain_def js_def tab_def nl_def)

lemma sample_n2s_plain: "\<forall>x. plain (sample_n2s x)"
  by (simp add: sample_n2s_def plain_def js_def tab_def nl_def)

text \<open>
  Claim C5 as stated fails: a title with a tab in it gives a line of nineteen fields.
\<close>

theorem tab_in_title_counterexample:
  "complete_data tab_title_data
   \<and> valid_draws tab_title_data sample_draws
   \<and> write_lines sample_n2s tab_title_data 1 (\<lambda>i. sample_draws) 0
       = ([join [tab] ((js ''Cozy'' @ [tab] @ js ''Loft'') # tl sample_row) @ [nl]], None)
   \<and> length (split tab (join [tab] ((js ''Cozy'' @ [tab] @ js ''Loft'') # tl sample_row))) = 19"
proof -
  have c: "complete_data tab_title_data"
    by (simp add: complete_data_def tab_title_data_def sample_data_def)
  have "row sample_n2s (sample_offer\<lparr>title := Some (js ''Cozy'' @ [tab] @ js ''Loft'')\<rparr>)
        = (js ''Cozy'' @ [tab] @ js ''Loft'') # tl sample_row"
    by (simp add: row_def sample_offer_def sample_row_def opt_text_def bool_text_def int_text_def
        digits_one digits_two) (simp add: js_def)
  then have "offer_line sample_n2s tab_title_data sample_draws
        = Inr (join [tab] ((js ''Cozy'' @ [tab] @ js ''Loft'') # tl sample_row) @ [nl])"
    by (simp add: offer_line_def tab_title_generate)
  then have w: "write_lines sample_n2s tab_title_data 1 (\<lambda>i. sample_draws) 0
       = ([join [tab] ((js ''Cozy'' @ [tab] @ js ''Loft'') # tl sample_row) @ [nl]], None)"
    by (intro write_lines_one)
  have s: "length (split tab (join [tab] ((js ''Cozy'' @ [tab] @ js ''Loft'') # tl sample_row))) = 19"
    by (simp add: sample_row_def js_def tab_def)
  from c w s show ?thesis by (simp add: sample_valid_draws)
qed

text \<open>
  The theorem of claim C5 at the sample dataset and the count 2.
\<close>

theorem generateOffers_lines_witness:
  "complete_data sample_data \<and> plain_data sample_data
   \<and> (\<forall>i. valid_draws sample_data sample_draws) \<and> (\<forall>x. plain (sample_n2s x))
   \<and> write_lines sample_n2s sample_data 2 (\<lambda>i. sample_draws) 0
       = ([join [tab] sample_row @ [nl], join [tab] sample_row @ [nl]], None)
   \<and> nl \<notin> set (join [tab] sample_row)
   \<and> length (split tab (join [tab] sample_row)) = 18
   \<and> generateOffers sample_n2s sample_data 2 (\<lambda>i. sample_draws) 0
       = Yield (join [tab] sample_row @ [nl]) 1
   \<and> generateOffers sample_n2s sample_data 2 (\<lambda>i. sample_draws) 1
       = Yield (join [tab] sample_row @ [nl]) 2
   \<and> generateOffers sample_n2s sample_data 2 (\<lambda>i. sample_draws) 2 = Done"
proof -
  let ?line = "join [tab] sample_row @ [nl]"
  have v: "\<forall>i. valid_draws sample_data ((\<lambda>i. sample_draws) i)"
    by (simp add: sample_valid_draws)
  from generateOffers_lines [OF sample_complete sample_plain v sample_n2s_plain, of 2]
  obtain lines where l: "write_lines sample_n2s sample_data 2 (\<lambda>i. sample_draws) 0 = (lines, None)"
    and n: "length lines = nat 2"
    and f: "\<forall>l \<in> set lines. \<exists>r. l = r @ [nl] \<and> nl \<notin> set r \<and> length (split tab r) = 18"
    and p: "\<forall>i. int i < 2 \<longrightarrow>
              (\<exists>l. generateOffers sample_n2s sample_data 2 (\<lambda>i. sample_draws) i = Yield l (i + 1))"
    and d: "generateOffers sample_n2s sample_data 2 (\<lambda>i. sample_draws) (nat 2) = Done"
    by blast
  have g0: "generateOffers sample_n2s sample_data 2 (\<lambda>i. sample_draws) 0 = Yield ?line 1"
    using p [rule_format, of 0] by (simp add: generateOffers_def sample_offer_line)
  have g1: "generateOffers sample_n2s sample_data 2 (\<lambda>i. sample_draws) 1 = Yield ?line 2"
    using p [rule_format, of 1] by (simp add: generateOffers_def sample_offer_line)
  have g2: "generateOffers sample_n2s sample_data 2 (\<lambda>i. sample_draws) 2 = Done"
    using d by simp
  have w2: "write_lines sample_n2s sample_data 2 (\<lambda>i. sample_draws) (Suc (Suc 0)) = ([], None)"
    by (rule write_lines_end) simp
  have w1: "write_lines sample_n2s sample_data 2 (\<lambda>i. sample_draws) (Suc 0) = ([?line], None)"
    by (rule write_lines_step [OF _ _ w2]) (simp_all add: sample_offer_line)
  have w: "write_lines sample_n2s sample_data 2 (\<lambda>i. sample_draws) 0 = ([?line, ?line], None)"
    by (rule write_lines_step [OF _ _ w1]) (simp_all add: sample_offer_line)
  with l have "lines = [?line, ?line]" by simp
  with f obtain r where "?line = r @ [nl]" and r: "nl \<notin> set r" "length (split tab r) = 18"
    by auto
  then have "r = join [tab] sample_row" by simp
  with r w g0 g1 g2 sample_complete sample_plain v sample_n2s_plain show ?thesis
    by simp
qed

section \<open>The importer of \<open>src/cli/cli.ts\<close> on generated files\<close>

lemma import_row_short: "length (split tab r) < 5 \<Longrightarrow> import_row r = Inl TypeError"
  by (simp add: import_row_def index_opt_def)

lemma import_row_error: "import_row r = Inl e \<Longrightarrow> e = TypeError"
  by (auto simp add: import_row_def Let_def split: option.splits)

lemma import_rows_error: "import_rows rs = Inl e \<Longrightarrow> e = TypeError"
  by (induction rs) (auto split: sum.splits dest: import_row_error)

lemma import_rows_short:
  "\<exists>r \<in> set rs. length (split tab r) < 5 \<Longrightarrow> import_rows rs = Inl TypeError"
proof (induction rs)
  case Nil
  then show ?case by simp
next
  case (Cons r rs)
  show ?case
  proof (cases "import_row r")
    case (Inl e)
    then show ?thesis using import_row_error [OF Inl] by simp
  next
    case (Inr x)
    then have "\<not> length (split tab r) < 5"
      using import_row_short [of r] by auto
    with Cons.prems have "\<exists>r \<in> set rs. length (split tab r) < 5" by simp
    then have "import_rows rs = Inl TypeError" by (rule Cons.IH)
    with Inr show ?thesis by simp
  qed
qed

lemma import_fails:
  assumes "length (split tab (last (split nl content))) < 5"
  shows "handleImportCommand (Inr content) = ImportFailed TypeError"
proof -
  have "last (split nl content) \<in> set (split nl content)" by simp
  with assms have "\<exists>r \<in> set (split nl content). length (split tab r) < 5" by blast
  then have "import_rows (split nl content) = Inl TypeError" by (rule import_rows_short)
  then show ?thesis by (simp add: handleImportCommand_def)
qed

lemma last_row_empty: "last (split nl (text @ [nl])) = []"
  by (simp add: last_split)

lemma write_lines_newline:
  "write_lines n2s mockData cnt rnd i = (lines, err) \<Longrightarrow> \<forall>l \<in> set lines. \<exists>r. l = r @ [nl]"
proof (induction n2s mockData cnt rnd i arbitrary: lines err rule: write_lines.induct)
  case (1 n2s mockData cnt rnd i)
  show ?case
  proof (cases "generateOffers n2s mockData cnt rnd i")
    case Done
    with "1.prems" show ?thesis by (subst (asm) write_lines.simps) simp
  next
    case (Throw e)
    with "1.prems" show ?thesis by (subst (asm) write_lines.simps) simp
  next
    case (Yield offerLine i')
    obtain ls e where w: "write_lines n2s mockData cnt rnd i' = (ls, e)"
      by (cases "write_lines n2s mockData cnt rnd i'")
    from "1.IH" [OF Yield w] have ih: "\<forall>l \<in> set ls. \<exists>r. l = r @ [nl]" .
    from Yield have "\<exists>r. offerLine = r @ [nl]"
      by (auto simp add: generateOffers_def offer_line_def split: if_splits sum.splits)
    moreover from "1.prems" Yield w have "lines = offerLine # ls"
      by (subst (asm) write_lines.simps) simp
    ultimately show ?thesis using ih by simp
  qed
qed

lemma concat_lines_end:
  assumes "\<forall>l \<in> set lines. \<exists>r. l = r @ [nl]"
  shows "last (split nl (concat lines)) = []"
proof (cases lines rule: rev_cases)
  case Nil
  then show ?thesis by simp
next
  case (snoc ls l)
  with assms obtain r where "l = r @ [nl]" by auto
  with snoc have "concat lines = (concat ls @ r) @ [nl]" by simp
  then show ?thesis by (simp only: last_row_empty)
qed

text \<open>
  Claim C10. The importer of \<open>src/cli/cli.ts\<close> reports the failure with a \<open>TypeError\<close>
  for every file whose last row has fewer than five fields; so for every file that ends
  with a newline, and for every file that the generator writes, whatever the count and
  whether or not the generator threw.
\<close>

theorem import_throws:
  "(length (split tab (last (split nl content))) < 5 \<longrightarrow>
      handleImportCommand (Inr content) = ImportFailed TypeError)
   \<and> handleImportCommand (Inr (text @ [nl])) = ImportFailed TypeError
   \<and> (write_lines n2s mockData cnt rnd 0 = (lines, err) \<longrightarrow>
        handleImportCommand (Inr (concat lines)) = ImportFailed TypeError)"
proof -
  have e: "length (split tab []) < 5" by simp
  have a: "handleImportCommand (Inr (text @ [nl])) = ImportFailed TypeError"
    by (rule import_fails) (simp only: last_row_empty e)
  have b: "handleImportCommand (Inr (concat lines)) = ImportFailed TypeError"
    if "write_lines n2s mockData cnt rnd 0 = (lines, err)"
    using write_lines_newline [OF that]
    by (intro import_fails) (simp only: concat_lines_end e)
  from a b import_fails show ?thesis by blast
qed

text \<open>
  The theorem of claim C10 at the file \<open>a\<close> and at the file of one generated line.
\<close>

theorem import_throws_witness:
  "length (split tab (last (split nl (js ''a'')))) < 5
   \<and> handleImportCommand (Inr (js ''a'')) = ImportFailed TypeError
   \<and> handleImportCommand (Inr (js ''a'' @ [nl])) = ImportFailed TypeError
   \<and> write_lines sample_n2s sample_data 1 (\<lambda>i. sample_draws) 0
       = ([join [tab] sample_row @ [nl]], None)
   \<and> handleImportCommand (Inr (concat [join [tab] sample_row @ [nl]])) = ImportFailed TypeError"
proof -
  have s: "length (split tab (last (split nl (js ''a'')))) < 5"
    by (simp add: js_def nl_def tab_def)
  have w: "write_lines sample_n2s sample_data 1 (\<lambda>i. sample_draws) 0
           = ([join [tab] sample_row @ [nl]], None)"
    by (intro write_lines_one) (simp add: sample_offer_line)
  show ?thesis
    using import_throws [of "js ''a''" "js ''a''" sample_n2s sample_data 1 "\<lambda>i. sample_draws"
        "[join [tab] sample_row @ [nl]]" None] s w
    by (simp only:)
qed

section \<open>Fetching the dataset\<close>

lemma length_resources: "length resources = 8"
  by (simp add: resources_def)

lemma Promise_all_rejected: "Promise_all ps = Inl e \<Longrightarrow> Inl e \<in> set ps"
  by (induction ps arbitrary: e) (auto split: sum.splits)

lemma Promise_all_rejects: "\<exists>p \<in> set ps. isl p \<Longrightarrow> \<exists>e. Promise_all ps = Inl e"
proof (induction ps)
  case Nil
  then show ?case by simp
next
  case (Cons p ps)
  show ?case
  proof (cases p)
    case (Inl e)
    then show ?thesis by simp
  next
    case (Inr v)
    with Cons.prems have "\<exists>p \<in> set ps. isl p" by auto
    then obtain e where "Promise_all ps = Inl e" using Cons.IH by blast
    with Inr show ?thesis by simp
  qed
qed

lemma Promise_all_fulfilled: "\<forall>p \<in> set ps. \<not> isl p \<Longrightarrow> Promise_all ps = Inr (map projr ps)"
  by (induction ps) (auto split: sum.splits)

text \<open>
  Claim C8. The command requests exactly the eight addresses \<open>url/resource\<close>. If one of
  the requests fails, the command rethrows the error of a failed request, opens no file and
  writes nothing; if none fails, the dataset is read from the eight bodies, in the order of
  the requests, and the lines are generated from it.
\<close>

theorem fetch_all_or_nothing:
  "requested (handleGenerateCommand n2s got cast rnd cnt filepath url)
     = map (\<lambda>resource. url @ [47] @ resource) resources
   \<and> length (requested (handleGenerateCommand n2s got cast rnd cnt filepath url)) = 8
   \<and> ((\<exists>u \<in> set (request_urls url). isl (got u)) \<longrightarrow>
        (\<exists>e. (\<exists>u \<in> set (request_urls url). got u = Inl e)
           \<and> handleGenerateCommand n2s got cast rnd cnt filepath url
               = \<lparr>requested = request_urls url, file_opened = None, written = [],
                  thrown = Some e\<rparr>))
   \<and> ((\<forall>u \<in> set (request_urls url). \<not> isl (got u)) \<longrightarrow>
        handleGenerateCommand n2s got cast rnd cnt filepath url
          = \<lparr>requested = request_urls url, file_opened = Some filepath,
             written = fst (write_lines n2s
               (cast (map (\<lambda>u. projr (got u)) (request_urls url))) cnt rnd 0),
             thrown = snd (write_lines n2s
               (cast (map (\<lambda>u. projr (got u)) (request_urls url))) cnt rnd 0)\<rparr>)"
proof -
  let ?h = "handleGenerateCommand n2s got cast rnd cnt filepath url"
  let ?ps = "map got (request_urls url)"
  have r: "requested ?h = request_urls url"
    by (simp add: handleGenerateCommand_def Let_def split: sum.splits prod.splits)
  then have a: "requested ?h = map (\<lambda>resource. url @ [47] @ resource) resources"
    by (simp add: request_urls_def)
  have b: "length (requested ?h) = 8"
    by (simp add: r request_urls_def length_resources)
  have c: "\<exists>e. (\<exists>u \<in> set (request_urls url). got u = Inl e)
             \<and> ?h = \<lparr>requested = request_urls url, file_opened = None, written = [],
                      thrown = Some e\<rparr>"
    if "\<exists>u \<in> set (request_urls url). isl (got u)"
  proof -
    from that have "\<exists>p \<in> set ?ps. isl p" by simp
    then obtain e where e: "Promise_all ?ps = Inl e"
      using Promise_all_rejects by blast
    then have "Inl e \<in> set ?ps" by (rule Promise_all_rejected)
    then have "\<exists>u \<in> set (request_urls url). got u = Inl e" by auto
    moreover have "?h = \<lparr>requested = request_urls url, file_opened = None, written = [],
                      thrown = Some e\<rparr>"
      by (simp add: handleGenerateCommand_def e)
    ultimately show ?thesis by blast
  qed
  have d: "?h = \<lparr>requested = request_urls url, file_opened = Some filepath,
             written = fst (write_lines n2s
               (cast (map (\<lambda>u. projr (got u)) (request_urls url))) cnt rnd 0),
             thrown = snd (write_lines n2s
               (cast (map (\<lambda>u. projr (got u)) (request_urls url))) cnt rnd 0)\<rparr>"
    if "\<forall>u \<in> set (request_urls url). \<not> isl (got u)"
  proof -
    from that have "\<forall>p \<in> set ?ps. \<not> isl p" by simp
    then have "Promise_all ?ps = Inr (map projr ?ps)" by (rule Promise_all_fulfilled)
    then show ?thesis
      by (simp add: handleGenerateCommand_def Let_def split_beta comp_def)
  qed
  from a b c d show ?thesis by blast
qed

text \<open>
  The theorem of claim C8 at a server whose \<open>users\<close> request fails and at a server that
  answers every request.
\<close>

theorem fetch_all_or_nothing_witness:
  "sample_url @ js ''/users'' \<in> set (request_urls sample_url)
   \<and> isl (failing_got (sample_url @ js ''/users''))
   \<and> handleGenerateCommand sample_n2s failing_got (\<lambda>bodies. sample_data) (\<lambda>i. sample_draws) 1
        (js ''offers.tsv'') sample_url
       = \<lparr>requested = request_urls sample_url, file_opened = None, written = [],
          thrown = Some RequestError\<rparr>
   \<and> list_all (\<lambda>u. \<not> isl (working_got u)) (request_urls sample_url)
   \<and> handleGenerateCommand sample_n2s working_got (\<lambda>bodies. sample_data) (\<lambda>i. sample_draws) 1
        (js ''offers.tsv'') sample_url
       = \<lparr>requested = request_urls sample_url, file_opened = Some (js ''offers.tsv''),
          written = [join [tab] sample_row @ [nl]], thrown = None\<rparr>"
proof -
  have m: "sample_url @ js ''/users'' \<in> set (request_urls sample_url)"
    by (simp add: request_urls_def resources_def js_def)
  have i: "isl (failing_got (sample_url @ js ''/users''))"
    by (simp add: failing_got_def)
  from m i have f: "\<exists>u \<in> set (request_urls sample_url). isl (failing_got u)"
    by blast
  have e: "e = RequestError" if "failing_got u = Inl e" for u e
    using that by (simp add: failing_got_def split: if_splits)
  have g: "\<forall>u \<in> set (request_urls sample_url). \<not> isl (working_got u)"
    by (simp add: working_got_def)
  have w: "write_lines sample_n2s sample_data 1 (\<lambda>i. sample_draws) 0
           = ([join [tab] sample_row @ [nl]], None)"
    by (intro write_lines_one) (simp add: sample_offer_line)
  from fetch_all_or_nothing [of sample_n2s failing_got "\<lambda>bodies. sample_data"
      "\<lambda>i. sample_draws" 1 "js ''offers.tsv''" sample_url] f e
  have a: "handleGenerateCommand sample_n2s failing_got (\<lambda>bodies. sample_data)
        (\<lambda>i. sample_draws) 1 (js ''offers.tsv'') sample_url
       = \<lparr>requested = request_urls sample_url, file_opened = None, written = [],
          thrown = Some RequestError\<rparr>"
    by blast
  from fetch_all_or_nothing [of sample_n2s working_got "\<lambda>bodies. sample_data"
      "\<lambda>i. sample_draws" 1 "js ''offers.tsv''" sample_url] g w
  have b: "handleGenerateCommand sample_n2s working_got (\<lambda>bodies. sample_data)
        (\<lambda>i. sample_draws) 1 (js ''offers.tsv'') sample_url
       = \<lparr>requested = request_urls sample_url, file_opened = Some (js ''offers.tsv''),
          written = [join [tab] sample_row @ [nl]], thrown = None\<rparr>"
    by simp
  from m i a g b show ?thesis by (simp add: list_all_iff)
qed

end
